theory Spec2Isabelle
  imports Main
begin

section \<open>JavaScript values\<close>

text \<open>
  \<^verbatim>\<open>cloud/main.js\<close> handles three kinds of untyped data: the query string of the
  callback request, the JSON bodies that the provider returns, and the values kept in
  the rows of the data store. All of them are JavaScript values. Numbers are restricted
  to the integers: the program only tests a number for truth and passes it on.
\<close>

datatype jsval =
    JUndefined
  | JNull
  | JBool bool
  | JNum int
  | JStr string
  | JArr "jsval list"
  | JObj "(string \<times> jsval) list"

text \<open>The truth value of \<^verbatim>\<open>if (v)\<close> and of the operands of \<^verbatim>\<open>&&\<close>.\<close>

fun truthy :: "jsval \<Rightarrow> bool" where
  "truthy JUndefined = False"
| "truthy JNull = False"
| "truthy (JBool b) = b"
| "truthy (JNum n) = (n \<noteq> 0)"
| "truthy (JStr s) = (s \<noteq> [])"
| "truthy (JArr xs) = True"
| "truthy (JObj kvs) = True"

text \<open>
  The value of \<^verbatim>\<open>v.name\<close> for a receiver that is neither \<^verbatim>\<open>undefined\<close> nor
  \<^verbatim>\<open>null\<close>, for the member names that main.js reads (\<^verbatim>\<open>code\<close>, \<^verbatim>\<open>state\<close>,
  \<^verbatim>\<open>access_token\<close>, \<^verbatim>\<open>user_id\<close>, \<^verbatim>\<open>response\<close>, \<^verbatim>\<open>first_name\<close>,
  \<^verbatim>\<open>last_name\<close>, \<^verbatim>\<open>uid\<close>, \<^verbatim>\<open>id\<close>, \<^verbatim>\<open>error\<close>): an own member of an object,
  and \<^verbatim>\<open>undefined\<close> on every other value (an object is the list of its members,
  each name once). In \<^verbatim>\<open>v && v.name\<close> the member is read
  only when \<^verbatim>\<open>v\<close> is truthy, so \<open>truthy v \<and> truthy (js_field v name)\<close> is that
  condition.
\<close>

fun js_field :: "jsval \<Rightarrow> string \<Rightarrow> jsval" where
  "js_field (JObj kvs) name = (case map_of kvs name of None \<Rightarrow> JUndefined | Some v \<Rightarrow> v)"
| "js_field v name = JUndefined"

datatype exn = TypeError

text \<open>An unguarded \<^verbatim>\<open>v.name\<close>: reading a member of undefined or null throws.\<close>

definition js_get :: "jsval \<Rightarrow> string \<Rightarrow> exn + jsval" where
  "js_get v name = (if v = JUndefined \<or> v = JNull then Inl TypeError else Inr (js_field v name))"

text \<open>An unguarded \<^verbatim>\<open>v[0]\<close>.\<close>

fun js_at0 :: "jsval \<Rightarrow> exn + jsval" where
  "js_at0 JUndefined = Inl TypeError"
| "js_at0 JNull = Inl TypeError"
| "js_at0 (JArr xs) = Inr (case xs of [] \<Rightarrow> JUndefined | x # _ \<Rightarrow> x)"
| "js_at0 (JStr s) = Inr (case s of [] \<Rightarrow> JUndefined | c # _ \<Rightarrow> JStr [c])"
| "js_at0 (JObj kvs) = Inr (js_field (JObj kvs) ''0'')"
| "js_at0 (JBool b) = Inr JUndefined"
| "js_at0 (JNum n) = Inr JUndefined"

text \<open>
  \<^verbatim>\<open>a !== b\<close> where \<^verbatim>\<open>b\<close> was just read from a row fetched from the store (the only
  place main.js uses the operator, line 285): primitive values are compared by value; an
  array or an object is never identical to a freshly decoded one.
\<close>

fun strict_neq :: "jsval \<Rightarrow> jsval \<Rightarrow> bool" where
  "strict_neq (JArr xs) b = True"
| "strict_neq (JObj kvs) b = True"
| "strict_neq a b = (a \<noteq> b)"


section \<open>The data store, the provider and the random source\<close>

text \<open>
  The three Parse classes. A \<^verbatim>\<open>TokenRequest\<close> has no attribute but its objectId, which
  is the OAuth \<^verbatim>\<open>state\<close> string: the table is the set of the live objectIds. The rows
  of the other two tables are kept in creation order, so
  \<^verbatim>\<open>query.ascending('createdAt')\<close> followed by \<^verbatim>\<open>first\<close> is the first matching row
  of the list. A pointer to a user is the user's objectId. The ACLs are not modelled:
  every operation of main.js uses the master key.
\<close>

record ts_attrs =
  vkId :: jsval
  vkFirstName :: jsval
  vkLastName :: jsval
  accessToken :: jsval
  user :: nat

record token_storage = ts_attrs +
  ts_objectId :: nat

record parse_user =
  user_objectId :: nat
  username :: "nat list"
  password :: "nat list"
  sessionToken :: string

datatype http_request =
  HttpRequest (http_method: string) (http_url: string)
    (http_headers: "(string \<times> string) list") (http_fields: "(string \<times> jsval) list")

record http_response =
  status :: nat
  data :: jsval

text \<open>Every request sent to the store or to the provider is written to a journal.\<close>

datatype event =
    Get_TokenRequest jsval
  | Destroy_TokenRequest string
  | Http http_request
  | First_TokenStorage_vkId jsval
  | First_TokenStorage_user nat
  | SignUp_User nat
  | Create_TokenStorage nat
  | Fetch_User nat
  | Update_TokenStorage nat "(string \<times> jsval) list"

record world =
  tokenRequests :: "string set"
  tokenStorage :: "token_storage list"
  users :: "parse_user list"
  next_objectId :: nat
  random_calls :: nat
  journal :: "event list"

text \<open>
  What main.js does not decide: the provider's answer to a request (it may depend on
  when the request is made: the first argument is the number of requests made so far),
  the values of \<^verbatim>\<open>_.random(0, 255)\<close>, and the session token that the store mints
  for a new user. An answer is either the response object with which the promise of
  \<^verbatim>\<open>Parse.Cloud.httpRequest\<close> is rejected, or the response with which it is resolved.
\<close>

record env =
  provider :: "nat \<Rightarrow> http_request \<Rightarrow> jsval + http_response"
  random :: "nat \<Rightarrow> nat"
  mint_session :: "nat \<Rightarrow> string"

definition object_not_found :: jsval where
  "object_not_found = JObj [(''code'', JNum 101), (''message'', JStr ''object not found'')]"

text \<open>
  \<^verbatim>\<open>query.get(objectId)\<close> on TokenRequest: rejected when there is no such row. Only a
  string is the objectId of a row.
\<close>

definition query_get :: "jsval \<Rightarrow> world \<Rightarrow> (jsval + string) \<times> world" where
  "query_get oid w =
     (let w' = w\<lparr>journal := journal w @ [Get_TokenRequest oid]\<rparr>
      in case oid of
           JStr s \<Rightarrow> if s \<in> tokenRequests w then (Inr s, w') else (Inl object_not_found, w')
         | _ \<Rightarrow> (Inl object_not_found, w'))"

text \<open>\<^verbatim>\<open>obj.destroy()\<close> on a TokenRequest: rejected when the row is already gone.\<close>

definition destroy :: "string \<Rightarrow> world \<Rightarrow> (jsval + unit) \<times> world" where
  "destroy s w =
     (let w' = w\<lparr>journal := journal w @ [Destroy_TokenRequest s]\<rparr>
      in if s \<in> tokenRequests w
         then (Inr (), w'\<lparr>tokenRequests := tokenRequests w - {s}\<rparr>)
         else (Inl object_not_found, w'))"

definition httpRequest :: "env \<Rightarrow> http_request \<Rightarrow> world \<Rightarrow> (jsval + http_response) \<times> world" where
  "httpRequest e req w = (provider e (length (journal w)) req, w\<lparr>journal := journal w @ [Http req]\<rparr>)"

text \<open>
  \<^verbatim>\<open>query.equalTo('vkId', v); query.ascending('createdAt'); query.first()\<close>: the oldest
  row whose \<^verbatim>\<open>vkId\<close> equals \<^verbatim>\<open>v\<close>. A row saved without the attribute has
  \<open>vkId = JUndefined\<close>, and a constraint on \<^verbatim>\<open>undefined\<close> matches those rows.
\<close>

definition first_by_vkId :: "jsval \<Rightarrow> world \<Rightarrow> token_storage option \<times> world" where
  "first_by_vkId v w =
     (find (\<lambda>r. vkId r = v) (tokenStorage w), w\<lparr>journal := journal w @ [First_TokenStorage_vkId v]\<rparr>)"

definition first_by_user :: "nat \<Rightarrow> world \<Rightarrow> token_storage option \<times> world" where
  "first_by_user uid w =
     (find (\<lambda>r. user r = uid) (tokenStorage w), w\<lparr>journal := journal w @ [First_TokenStorage_user uid]\<rparr>)"

text \<open>\<^verbatim>\<open>user.signUp()\<close>: a new row of users, with a fresh objectId and a session token.\<close>

definition signUp :: "env \<Rightarrow> nat list \<Rightarrow> nat list \<Rightarrow> world \<Rightarrow> parse_user \<times> world" where
  "signUp e un pw w =
     (let n = next_objectId w;
          u = \<lparr>user_objectId = n, username = un, password = pw, sessionToken = mint_session e n\<rparr>
      in (u, w\<lparr>users := users w @ [u], next_objectId := Suc n,
                journal := journal w @ [SignUp_User n]\<rparr>))"

text \<open>\<^verbatim>\<open>ts.save()\<close> of a new TokenStorage object.\<close>

definition save_new :: "ts_attrs \<Rightarrow> world \<Rightarrow> token_storage \<times> world" where
  "save_new a w =
     (let n = next_objectId w;
          r = \<lparr>vkId = vkId a, vkFirstName = vkFirstName a, vkLastName = vkLastName a,
               accessToken = accessToken a, user = user a, ts_objectId = n\<rparr>
      in (r, w\<lparr>tokenStorage := tokenStorage w @ [r], next_objectId := Suc n,
                journal := journal w @ [Create_TokenStorage n]\<rparr>))"

text \<open>\<^verbatim>\<open>user.fetch()\<close>: the row of the user the pointer refers to.\<close>

definition fetch :: "nat \<Rightarrow> world \<Rightarrow> (jsval + parse_user) \<times> world" where
  "fetch uid w =
     (case find (\<lambda>u. user_objectId u = uid) (users w) of
        None \<Rightarrow> Inl object_not_found
      | Some u \<Rightarrow> Inr u,
      w\<lparr>journal := journal w @ [Fetch_User uid]\<rparr>)"

text \<open>
  \<^verbatim>\<open>tokenData.save()\<close> of a fetched row (line 292). The call is not guarded: only the
  \<^verbatim>\<open>set\<close> of lines 285-287 is. It sends the request that updates the row of that
  objectId with the attributes set since the row was fetched: the access token when it
  was set (\<open>dirty\<close>), and no attribute otherwise. (The comment of lines 288-291 says
  that no request is sent in the second case; the code sends one, with an empty body.)
\<close>

definition save :: "token_storage \<Rightarrow> bool \<Rightarrow> world \<Rightarrow> world" where
  "save tokenData dirty w =
     w\<lparr>tokenStorage :=
         (if dirty
          then map (\<lambda>r. if ts_objectId r = ts_objectId tokenData
                         then r\<lparr>accessToken := accessToken tokenData\<rparr> else r)
                 (tokenStorage w)
          else tokenStorage w),
       journal := journal w @
         [Update_TokenStorage (ts_objectId tokenData)
            (if dirty then [(''accessToken'', accessToken tokenData)] else [])]\<rparr>"


section \<open>Application constants and provider requests (lines 33-40, 233-264)\<close>

definition vkAppId :: string where "vkAppId = ''vk-app-id''"
definition vkAppSecret :: string where "vkAppSecret = ''vk-app-secret''"
definition vkRedirectURI :: string where
  "vkRedirectURI = ''https://<parse-app-name>.parseapp.com/oauthCallback''"
definition vkValidateEndpoint :: string where
  "vkValidateEndpoint = ''https://oauth.vk.com/access_token''"
definition vkUserEndpoint :: string where
  "vkUserEndpoint = ''https://api.vk.com/method/users.get''"

text \<open>The request that \<^verbatim>\<open>getVKAccessToken(code)\<close> sends; the fields are its form body.\<close>

definition getVKAccessToken :: "jsval \<Rightarrow> http_request" where
  "getVKAccessToken code =
     HttpRequest ''POST'' vkValidateEndpoint
       [(''Accept'', ''application/json''), (''User-Agent'', ''Parse.com Cloud Code'')]
       [(''client_id'', JStr vkAppId), (''client_secret'', JStr vkAppSecret),
        (''code'', code), (''redirect_uri'', JStr vkRedirectURI)]"

text \<open>The request that \<^verbatim>\<open>getVKUserDetails(accessToken)\<close> sends; the fields are its params.\<close>

definition getVKUserDetails :: "jsval \<Rightarrow> http_request" where
  "getVKUserDetails token =
     HttpRequest ''GET'' vkUserEndpoint
       [(''User-Agent'', ''Parse.com Cloud Code'')]
       [(''access_token'', token)]"

text \<open>\<^verbatim>\<open>userDataResponse.data.response[0]\<close> (lines 162 and 221), with nothing guarded.\<close>

definition response0 :: "http_response \<Rightarrow> exn + jsval" where
  "response0 userDataResponse =
     (case js_get (data userDataResponse) ''response'' of
        Inl x \<Rightarrow> Inl x
      | Inr r \<Rightarrow> js_at0 r)"


section \<open>The identity upsert (lines 271-333)\<close>

text \<open>
  A call of \<^verbatim>\<open>upsertVKUser\<close> is a chain of promises. Its state says which request to
  the store is pending, with the variables that the continuation of that request reads:
  \<^item> \<open>Up_first token vkData v\<close>: \<^verbatim>\<open>query.first\<close> with the constraint \<^verbatim>\<open>vkId == v\<close> (line 276);
  \<^item> \<open>Up_fetch token tokenData\<close>: \<^verbatim>\<open>user.fetch\<close> (line 283);
  \<^item> \<open>Up_save tokenData dirty user\<close>: \<^verbatim>\<open>tokenData.save\<close> (line 292);
  \<^item> \<open>Up_signUp token vkData username password\<close>: \<^verbatim>\<open>user.signUp\<close> (line 319);
  \<^item> \<open>Up_create token vkData ts\<close>: \<^verbatim>\<open>ts.save\<close> of the new row (line 329);
  \<^item> \<open>Up_resolved user\<close>, \<open>Up_rejected error\<close>: the promise is settled;
  \<^item> \<open>Up_threw x\<close>: an exception left the function.
  One step performs the pending request on the store and runs the continuation that
  receives its result, up to the next request.
\<close>

datatype upsert =
    Up_first jsval jsval jsval
  | Up_fetch jsval token_storage
  | Up_save token_storage bool parse_user
  | Up_signUp jsval jsval "nat list" "nat list"
  | Up_create jsval jsval ts_attrs
  | Up_resolved parse_user
  | Up_rejected jsval
  | Up_threw exn

text \<open>Lines 271-276: the query is built from \<^verbatim>\<open>vkData.id\<close> and sent.\<close>

definition upsertVKUser :: "jsval \<Rightarrow> jsval \<Rightarrow> upsert" where
  "upsertVKUser token vkData =
     (case js_get vkData ''id'' of
        Inl x \<Rightarrow> Up_threw x
      | Inr v \<Rightarrow> Up_first token vkData v)"

text \<open>
  Lines 307-319: 24 bytes each for the user name and the password, drawn alternately,
  then \<^verbatim>\<open>signUp\<close> is sent.
\<close>

definition newVKUser :: "env \<Rightarrow> jsval \<Rightarrow> jsval \<Rightarrow> world \<Rightarrow> upsert \<times> world" where
  "newVKUser e token vkData w =
     (let c = random_calls w;
          un = map (\<lambda>i. random e (c + 2 * i) mod 256) [0..<24];
          pw = map (\<lambda>i. random e (c + 2 * i + 1) mod 256) [0..<24]
      in (Up_signUp token vkData un pw, w\<lparr>random_calls := c + 48\<rparr>))"

fun upsert_step :: "env \<Rightarrow> upsert \<Rightarrow> world \<Rightarrow> upsert \<times> world" where
  "upsert_step e (Up_first token vkData v) w =
     (case first_by_vkId v w of
        (None, w') \<Rightarrow> newVKUser e token vkData w'
      | (Some tokenData, w') \<Rightarrow> (Up_fetch token tokenData, w'))"
| "upsert_step e (Up_fetch token tokenData) w =
     (case fetch (user tokenData) w of
        (Inl err, w') \<Rightarrow> (Up_rejected err, w')
      | (Inr u, w') \<Rightarrow>
          (if strict_neq token (accessToken tokenData)
           then (Up_save (tokenData\<lparr>accessToken := token\<rparr>) True u, w')
           else (Up_save tokenData False u, w')))"
| "upsert_step e (Up_save tokenData dirty u) w = (Up_resolved u, save tokenData dirty w)"
| "upsert_step e (Up_signUp token vkData un pw) w =
     (case signUp e un pw w of
        (u, w') \<Rightarrow>
          (case js_get vkData ''id'' of
             Inl x \<Rightarrow> (Up_threw x, w')
           | Inr v \<Rightarrow>
               (Up_create token vkData
                  \<lparr>vkId = v, vkFirstName = js_field vkData ''first_name'',
                   vkLastName = js_field vkData ''last_name'',
                   accessToken = token, user = user_objectId u\<rparr>, w')))"
| "upsert_step e (Up_create token vkData ts) w =
     (case save_new ts w of (saved, w') \<Rightarrow> (upsertVKUser token vkData, w'))"
| "upsert_step e (Up_resolved u) w = (Up_resolved u, w)"
| "upsert_step e (Up_rejected err) w = (Up_rejected err, w)"
| "upsert_step e (Up_threw x) w = (Up_threw x, w)"

fun upsert_pending :: "upsert \<Rightarrow> bool" where
  "upsert_pending (Up_resolved u) = False"
| "upsert_pending (Up_rejected err) = False"
| "upsert_pending (Up_threw x) = False"
| "upsert_pending u = True"

text \<open>An upper bound on the number of requests that a call still makes.\<close>

fun upsert_fuel :: "upsert \<Rightarrow> world \<Rightarrow> nat" where
  "upsert_fuel (Up_first token vkData v) w =
     (if find (\<lambda>r. vkId r = v) (tokenStorage w) = None then 6 else 3)"
| "upsert_fuel (Up_signUp token vkData un pw) w = 5"
| "upsert_fuel (Up_create token vkData ts) w = (if js_get vkData ''id'' = Inr (vkId ts) then 4 else 7)"
| "upsert_fuel (Up_fetch token tokenData) w = 2"
| "upsert_fuel (Up_save tokenData dirty u) w = 1"
| "upsert_fuel (Up_resolved u) w = 0"
| "upsert_fuel (Up_rejected err) w = 0"
| "upsert_fuel (Up_threw x) w = 0"

lemma find_append:
  "find P (xs @ ys) = (case find P xs of None \<Rightarrow> find P ys | Some x \<Rightarrow> Some x)"
  by (induction xs) auto

lemma upsert_step_fuel:
  "upsert_pending u \<Longrightarrow> upsert_fuel (fst (upsert_step e u w)) (snd (upsert_step e u w)) < upsert_fuel u w"
proof (cases u)
  case (Up_first token vkData v)
  then show ?thesis
    by (simp add: first_by_vkId_def newVKUser_def Let_def split: option.splits)
next
  case (Up_fetch token tokenData)
  then show ?thesis
    by (simp add: fetch_def split: option.splits)
next
  case (Up_save tokenData dirty u)
  then show ?thesis by simp
next
  case (Up_signUp token vkData un pw)
  then show ?thesis
    by (simp add: signUp_def Let_def split: sum.splits)
next
  case (Up_create token vkData ts)
  then show ?thesis
    by (simp add: save_new_def Let_def upsertVKUser_def find_append
          split: sum.splits option.splits)
qed simp_all

text \<open>A call run alone to its end: no other request reaches the store in between.\<close>

function run_upsert :: "env \<Rightarrow> upsert \<Rightarrow> world \<Rightarrow> upsert \<times> world" where
  "run_upsert e u w =
     (if upsert_pending u
      then (case upsert_step e u w of (u', w') \<Rightarrow> run_upsert e u' w')
      else (u, w))"
  by pat_completeness auto
termination
proof (relation "measure (\<lambda>(e, u, w). upsert_fuel u w)")
  fix e u w u' w'
  assume "upsert_pending u" and "(u', w') = upsert_step e u w"
  then show "((e, u', w'), (e, u, w)) \<in> measure (\<lambda>(e, u, w). upsert_fuel u w)"
    using upsert_step_fuel [of u e w] by (simp add: prod_eq_iff split_beta)
qed simp

declare run_upsert.simps [simp del]


section \<open>The OAuth callback route (lines 120-185)\<close>

text \<open>
  What the handler passes to \<^verbatim>\<open>res.render\<close>: the error view with its message, or the
  view that stores the session token. \<open>Uncaught\<close>: an exception was thrown inside a
  continuation of the promise chain. What becomes of it is decided by the promise
  library, not by main.js; the model stops the callback there.
\<close>

datatype message =
    Plain string
  | JSON_stringify jsval
  | JSON_stringify_sum jsval jsval

datatype response =
    Render_error message
  | Render_store_auth string
  | Uncaught exn

text \<open>
  The error callback (lines 174-183). \<open>JSON_stringify_sum c m\<close> stands for
  \<^verbatim>\<open>JSON.stringify(c + ' ' + m)\<close>.
\<close>

definition on_error :: "jsval \<Rightarrow> response" where
  "on_error error =
     (if truthy error \<and> truthy (js_field error ''code'') \<and> truthy (js_field error ''error'')
      then Render_error (JSON_stringify_sum (js_field error ''code'') (js_field error ''error''))
      else Render_error (JSON_stringify error))"

text \<open>
  The pending request of a callback, with the variables its continuation reads:
  \<^item> \<open>Cb_get req_query\<close>: \<^verbatim>\<open>query.get(data.state)\<close> (line 138);
  \<^item> \<open>Cb_destroy req_query obj\<close>: \<^verbatim>\<open>obj.destroy()\<close> (line 141);
  \<^item> \<open>Cb_getVKAccessToken req_query\<close>: the token request (line 144);
  \<^item> \<open>Cb_getVKUserDetails token\<close>: the profile request (line 153);
  \<^item> \<open>Cb_upsertVKUser u\<close>: the upsert, in state \<open>u\<close> (line 164);
  \<^item> \<open>Cb_done r\<close>: the handler has answered.
\<close>

datatype callback =
    Cb_get jsval
  | Cb_destroy jsval string
  | Cb_getVKAccessToken jsval
  | Cb_getVKUserDetails jsval
  | Cb_upsertVKUser upsert
  | Cb_done response

text \<open>Lines 168-183: what the handler does with the outcome of the upsert.\<close>

fun after_upsert :: "upsert \<Rightarrow> callback" where
  "after_upsert (Up_resolved u) = Cb_done (Render_store_auth (sessionToken u))"
| "after_upsert (Up_rejected err) = Cb_done (on_error err)"
| "after_upsert (Up_threw x) = Cb_done (Uncaught x)"
| "after_upsert u = Cb_upsertVKUser u"

text \<open>Lines 120-138: the check of the query parameters, before anything is requested.\<close>

definition oauthCallback :: "jsval \<Rightarrow> callback" where
  "oauthCallback req_query =
     (if \<not> (truthy req_query \<and> truthy (js_field req_query ''code'')
             \<and> truthy (js_field req_query ''state''))
      then Cb_done (Render_error (Plain ''Invalid auth response received.''))
      else Cb_get req_query)"

fun callback_step :: "env \<Rightarrow> callback \<Rightarrow> world \<Rightarrow> callback \<times> world" where
  "callback_step e (Cb_get req_query) w =
     (case query_get (js_field req_query ''state'') w of
        (Inl err, w') \<Rightarrow> (Cb_done (on_error err), w')
      | (Inr obj, w') \<Rightarrow> (Cb_destroy req_query obj, w'))"
| "callback_step e (Cb_destroy req_query obj) w =
     (case destroy obj w of
        (Inl err, w') \<Rightarrow> (Cb_done (on_error err), w')
      | (Inr _, w') \<Rightarrow> (Cb_getVKAccessToken req_query, w'))"
| "callback_step e (Cb_getVKAccessToken req_query) w =
     (case httpRequest e (getVKAccessToken (js_field req_query ''code'')) w of
        (Inl err, w') \<Rightarrow> (Cb_done (on_error err), w')
      | (Inr access, w') \<Rightarrow>
          (let vkData = data access
           in if truthy vkData \<and> truthy (js_field vkData ''access_token'')
                 \<and> truthy (js_field vkData ''user_id'')
              then (Cb_getVKUserDetails (js_field vkData ''access_token''), w')
              else (Cb_done (on_error (JStr ''Invalid access request.'')), w')))"
| "callback_step e (Cb_getVKUserDetails token) w =
     (case httpRequest e (getVKUserDetails token) w of
        (Inl err, w') \<Rightarrow> (Cb_done (on_error err), w')
      | (Inr userDataResponse, w') \<Rightarrow>
          (case response0 userDataResponse of
             Inl x \<Rightarrow> (Cb_done (Uncaught x), w')
           | Inr userData \<Rightarrow>
               if truthy userData \<and> truthy (js_field userData ''first_name'')
                  \<and> truthy (js_field userData ''last_name'') \<and> truthy (js_field userData ''uid'')
               then (after_upsert (upsertVKUser token userData), w')
               else (Cb_done (on_error (JStr ''Unable to parse VK data'')), w')))"
| "callback_step e (Cb_upsertVKUser u) w =
     (case upsert_step e u w of (u', w') \<Rightarrow> (after_upsert u', w'))"
| "callback_step e (Cb_done r) w = (Cb_done r, w)"

fun callback_pending :: "callback \<Rightarrow> bool" where
  "callback_pending (Cb_done r) = False"
| "callback_pending c = True"

fun callback_fuel :: "callback \<Rightarrow> world \<Rightarrow> nat" where
  "callback_fuel (Cb_get req_query) w = 11"
| "callback_fuel (Cb_destroy req_query obj) w = 10"
| "callback_fuel (Cb_getVKAccessToken req_query) w = 9"
| "callback_fuel (Cb_getVKUserDetails token) w = 8"
| "callback_fuel (Cb_upsertVKUser u) w = Suc (upsert_fuel u w)"
| "callback_fuel (Cb_done r) w = 0"

lemma callback_fuel_after_upsert: "callback_fuel (after_upsert u) w \<le> Suc (upsert_fuel u w)"
  by (cases u) simp_all

lemma after_upsert_not_pending: "\<not> upsert_pending u \<Longrightarrow> callback_fuel (after_upsert u) w = 0"
  by (cases u) simp_all

lemma callback_step_fuel:
  "callback_pending c \<Longrightarrow>
   callback_fuel (fst (callback_step e c w)) (snd (callback_step e c w)) < callback_fuel c w"
proof (cases c)
  case (Cb_get req_query)
  then show ?thesis
    by (simp add: query_get_def Let_def split: jsval.splits)
next
  case (Cb_destroy req_query obj)
  then show ?thesis
    by (simp add: destroy_def Let_def)
next
  case (Cb_getVKAccessToken req_query)
  then show ?thesis
    by (simp add: httpRequest_def Let_def split: sum.splits)
next
  case (Cb_getVKUserDetails token)
  have "callback_fuel (after_upsert (upsertVKUser token vkData)) w' < 8" for vkData w'
    using callback_fuel_after_upsert [of "upsertVKUser token vkData" w']
    by (simp add: upsertVKUser_def split: sum.splits if_splits)
  with Cb_getVKUserDetails show ?thesis
    by (simp add: httpRequest_def split: sum.splits)
next
  case (Cb_upsertVKUser u)
  show ?thesis
  proof (cases "upsert_pending u")
    case True
    then show ?thesis
      using upsert_step_fuel [of u e w]
        callback_fuel_after_upsert [of "fst (upsert_step e u w)" "snd (upsert_step e u w)"]
      by (simp add: Cb_upsertVKUser split_beta)
  next
    case False
    then have "upsert_step e u w = (u, w)" by (cases u) simp_all
    with False show ?thesis
      by (simp add: Cb_upsertVKUser after_upsert_not_pending)
  qed
qed simp

text \<open>A callback run alone to its answer.\<close>

function run_callback :: "env \<Rightarrow> callback \<Rightarrow> world \<Rightarrow> callback \<times> world" where
  "run_callback e c w =
     (if callback_pending c
      then (case callback_step e c w of (c', w') \<Rightarrow> run_callback e c' w')
      else (c, w))"
  by pat_completeness auto
termination
proof (relation "measure (\<lambda>(e, c, w). callback_fuel c w)")
  fix e c w c' w'
  assume "callback_pending c" and "(c', w') = callback_step e c w"
  then show "((e, c', w'), (e, c, w)) \<in> measure (\<lambda>(e, c, w). callback_fuel c w)"
    using callback_step_fuel [of c e w] by (simp add: prod_eq_iff split_beta)
qed simp

declare run_callback.simps [simp del]


section \<open>The cloud function getVKData (lines 206-226)\<close>

datatype cloud_response =
    Success jsval
  | Error jsval
  | Cloud_uncaught exn

text \<open>
  \<open>Gv_first uid\<close>: \<^verbatim>\<open>query.first\<close> with the constraint \<^verbatim>\<open>user == request.user\<close> is
  pending (line 214); \<open>Gv_getVKUserDetails token\<close>: the profile request is pending
  (line 219); \<open>Gv_done r\<close>: the function has answered.
\<close>

datatype vkdata_call =
    Gv_first nat
  | Gv_getVKUserDetails jsval
  | Gv_done cloud_response

definition getVKData :: "parse_user option \<Rightarrow> vkdata_call" where
  "getVKData request_user =
     (case request_user of
        None \<Rightarrow> Gv_done (Error (JStr ''Must be logged in.''))
      | Some u \<Rightarrow> Gv_first (user_objectId u))"

fun getVKData_step :: "env \<Rightarrow> vkdata_call \<Rightarrow> world \<Rightarrow> vkdata_call \<times> world" where
  "getVKData_step e (Gv_first uid) w =
     (case first_by_user uid w of
        (None, w') \<Rightarrow> (Gv_done (Error (JStr ''No VK data found.'')), w')
      | (Some tokenData, w') \<Rightarrow> (Gv_getVKUserDetails (accessToken tokenData), w'))"
| "getVKData_step e (Gv_getVKUserDetails token) w =
     (case httpRequest e (getVKUserDetails token) w of
        (Inl err, w') \<Rightarrow> (Gv_done (Error err), w')
      | (Inr userDataResponse, w') \<Rightarrow>
          (case response0 userDataResponse of
             Inl x \<Rightarrow> (Gv_done (Cloud_uncaught x), w')
           | Inr userData \<Rightarrow> (Gv_done (Success userData), w')))"
| "getVKData_step e (Gv_done r) w = (Gv_done r, w)"

text \<open>The function run alone to its answer: it makes at most two requests.\<close>

definition run_getVKData :: "env \<Rightarrow> vkdata_call \<Rightarrow> world \<Rightarrow> vkdata_call \<times> world" where
  "run_getVKData e g w =
     (case getVKData_step e g w of (g', w') \<Rightarrow> getVKData_step e g' w')"

section \<open>Notions used in the statements\<close>

text \<open>
  The oldest row of the identifier \<open>v\<close>, if there is one, points to a user that exists.
  This holds when no row has the identifier. It holds in every store that main.js has
  filled: a row is created right after its user, and rows and users are never deleted.
\<close>

definition oldest_has_user :: "jsval \<Rightarrow> world \<Rightarrow> bool" where
  "oldest_has_user v w =
     (case find (\<lambda>r. vkId r = v) (tokenStorage w) of
        None \<Rightarrow> True
      | Some l \<Rightarrow> \<exists>u \<in> set (users w). user_objectId u = user l)"

text \<open>The requests that write a TokenStorage row.\<close>

fun link_write :: "event \<Rightarrow> bool" where
  "link_write (Create_TokenStorage n) = True"
| "link_write (Update_TokenStorage n body) = True"
| "link_write ev = False"

text \<open>
  What the not-found branch adds to the store: the user that \<^verbatim>\<open>signUp\<close> creates, the
  row that \<^verbatim>\<open>ts.save\<close> creates for it, and the world after the two requests.
\<close>

definition new_user :: "env \<Rightarrow> world \<Rightarrow> parse_user" where
  "new_user e w =
     \<lparr>user_objectId = next_objectId w,
      username = map (\<lambda>i. random e (random_calls w + 2 * i) mod 256) [0..<24],
      password = map (\<lambda>i. random e (random_calls w + 2 * i + 1) mod 256) [0..<24],
      sessionToken = mint_session e (next_objectId w)\<rparr>"

definition new_link :: "jsval \<Rightarrow> jsval \<Rightarrow> jsval \<Rightarrow> world \<Rightarrow> token_storage" where
  "new_link token vkData v w =
     \<lparr>vkId = v, vkFirstName = js_field vkData ''first_name'',
      vkLastName = js_field vkData ''last_name'', accessToken = token,
      user = next_objectId w, ts_objectId = Suc (next_objectId w)\<rparr>"

definition after_creation :: "env \<Rightarrow> jsval \<Rightarrow> jsval \<Rightarrow> jsval \<Rightarrow> world \<Rightarrow> world" where
  "after_creation e token vkData v w =
     w\<lparr>users := users w @ [new_user e w],
       tokenStorage := tokenStorage w @ [new_link token vkData v w],
       next_objectId := Suc (Suc (next_objectId w)),
       random_calls := random_calls w + 48,
       journal := journal w @ [First_TokenStorage_vkId v, SignUp_User (next_objectId w),
                               Create_TokenStorage (Suc (next_objectId w))]\<rparr>"


section \<open>Calls in flight at the same time\<close>

text \<open>
  Cloud Code runs each call as a chain of continuations, and several calls may be in
  flight. The store serves one request at a time, and the continuation that receives
  the result only computes the next request of its call. So a run of several calls is a
  schedule: the list of the calls whose pending request is served next, in the order in
  which the store (or the provider) serves them. Rows are created one after the other,
  so that their creation order is total. An index outside the pool is skipped, and a
  settled call that is scheduled does nothing.
\<close>

fun interleave ::
  "('t \<Rightarrow> world \<Rightarrow> 't \<times> world) \<Rightarrow> nat list \<Rightarrow> 't list \<Rightarrow> world \<Rightarrow> 't list \<times> world" where
  "interleave step [] ts w = (ts, w)"
| "interleave step (i # sched) ts w =
     (if i < length ts
      then (case step (ts ! i) w of (t', w') \<Rightarrow> interleave step sched (ts[i := t']) w')
      else interleave step sched ts w)"

text \<open>A callback in a pool is kept with the query it was called with.\<close>

definition request_step ::
  "env \<Rightarrow> jsval \<times> callback \<Rightarrow> world \<Rightarrow> (jsval \<times> callback) \<times> world" where
  "request_step e rc w = (case callback_step e (snd rc) w of (c', w') \<Rightarrow> ((fst rc, c'), w'))"

text \<open>
  The user that the oldest row with the identifier \<open>v\<close> points to, and what is known
  of a call for \<open>v\<close> in each of its states.
\<close>

definition canonical :: "jsval \<Rightarrow> world \<Rightarrow> nat option" where
  "canonical v w = map_option user (find (\<lambda>r. vkId r = v) (tokenStorage w))"

fun call_ok :: "jsval \<Rightarrow> world \<Rightarrow> upsert \<Rightarrow> bool" where
  "call_ok v w (Up_first token vkData q) = (q = v \<and> js_get vkData ''id'' = Inr v)"
| "call_ok v w (Up_signUp token vkData un pw) = (js_get vkData ''id'' = Inr v)"
| "call_ok v w (Up_create token vkData ts) =
     (js_get vkData ''id'' = Inr v \<and> vkId ts = v
      \<and> (\<exists>x \<in> set (users w). user_objectId x = user ts))"
| "call_ok v w (Up_fetch token tokenData) = (canonical v w = Some (user tokenData))"
| "call_ok v w (Up_save tokenData dirty u) =
     (canonical v w = Some (user_objectId u)
      \<and> find (\<lambda>x. user_objectId x = user_objectId u) (users w) = Some u)"
| "call_ok v w (Up_resolved u) =
     (canonical v w = Some (user_objectId u)
      \<and> find (\<lambda>x. user_objectId x = user_objectId u) (users w) = Some u)"
| "call_ok v w (Up_rejected err) = False"
| "call_ok v w (Up_threw x) = False"

text \<open>
  A callback has consumed its state when it has destroyed its TokenRequest and has not
  failed since: it is about to call the provider, or in the upsert, or it has answered
  with a session token.
\<close>

fun consumed :: "callback \<Rightarrow> bool" where
  "consumed (Cb_getVKAccessToken req_query) = True"
| "consumed (Cb_getVKUserDetails token) = True"
| "consumed (Cb_upsertVKUser u) = True"
| "consumed (Cb_done (Render_store_auth t)) = True"
| "consumed c = False"

fun is_http :: "event \<Rightarrow> bool" where
  "is_http (Http req) = True"
| "is_http ev = False"

text \<open>What is known of a callback in a pool, in each of its states.\<close>

fun request_ok :: "world \<Rightarrow> jsval \<times> callback \<Rightarrow> bool" where
  "request_ok w (q, Cb_get q') = (q' = q \<and> truthy (js_field q ''state''))"
| "request_ok w (q, Cb_destroy q' s) = (q' = q \<and> js_field q ''state'' = JStr s \<and> s \<noteq> [])"
| "request_ok w (q, Cb_done (Render_error m)) = True"
| "request_ok w (q, Cb_done (Uncaught x)) = True"
| "request_ok w (q, c) =
     ((\<forall>q'. c = Cb_getVKAccessToken q' \<longrightarrow> q' = q)
      \<and> (\<exists>s. js_field q ''state'' = JStr s \<and> s \<noteq> [] \<and> s \<notin> tokenRequests w))"

definition consumers_differ :: "(jsval \<times> callback) list \<Rightarrow> bool" where
  "consumers_differ cs =
     (\<forall>i < length cs. \<forall>j < length cs.
        i \<noteq> j \<and> consumed (snd (cs ! i)) \<and> consumed (snd (cs ! j)) \<longrightarrow>
        js_field (fst (cs ! i)) ''state'' \<noteq> js_field (fst (cs ! j)) ''state'')"


section \<open>The scenario of the specification\<close>

text \<open>
  A provider that answers the token request with
  \<^verbatim>\<open>{access_token: "t1", user_id: 7}\<close> and the profile request with
  \<^verbatim>\<open>{response: [{uid: 7, first_name: "Ana", last_name: "Li"}]}\<close>, a store that holds the
  TokenRequest \<^verbatim>\<open>S1\<close> and nothing else, and the callback
  \<^verbatim>\<open>{code: "c1", state: "S1"}\<close>.
\<close>

definition scenario_provider :: "nat \<Rightarrow> http_request \<Rightarrow> jsval + http_response" where
  "scenario_provider n req =
     (if http_method req = ''POST''
      then Inr \<lparr>status = 200,
                data = JObj [(''access_token'', JStr ''t1''), (''user_id'', JNum 7)]\<rparr>
      else Inr \<lparr>status = 200,
                data = JObj [(''response'',
                  JArr [JObj [(''uid'', JNum 7), (''first_name'', JStr ''Ana''),
                              (''last_name'', JStr ''Li'')]])]\<rparr>)"

definition scenario_env :: env where
  "scenario_env =
     \<lparr>provider = scenario_provider, random = (\<lambda>n. n), mint_session = (\<lambda>n. replicate n CHR ''r'')\<rparr>"

definition scenario_world :: world where
  "scenario_world =
     \<lparr>tokenRequests = {''S1''}, tokenStorage = [], users = [], next_objectId = 0,
      random_calls = 0, journal = []\<rparr>"

definition scenario_query :: jsval where
  "scenario_query = JObj [(''code'', JStr ''c1''), (''state'', JStr ''S1'')]"


text \<open>A second person, whose profile is \<^verbatim>\<open>{uid: 8, first_name: "Bo", last_name: "Chu"}\<close>.\<close>

definition second_provider :: "nat \<Rightarrow> http_request \<Rightarrow> jsval + http_response" where
  "second_provider n req =
     (if http_method req = ''POST''
      then Inr \<lparr>status = 200,
                data = JObj [(''access_token'', JStr ''t2''), (''user_id'', JNum 8)]\<rparr>
      else Inr \<lparr>status = 200,
                data = JObj [(''response'',
                  JArr [JObj [(''uid'', JNum 8), (''first_name'', JStr ''Bo''),
                              (''last_name'', JStr ''Chu'')]])]\<rparr>)"

definition second_query :: jsval where
  "second_query = JObj [(''code'', JStr ''c2''), (''state'', JStr ''S2'')]"


text \<open>A store in which the user 0 is linked twice, and a signed-in caller who is that user.\<close>

definition linked_world :: world where
  "linked_world =
     \<lparr>tokenRequests = {},
      tokenStorage =
        [\<lparr>vkId = JNum 7, vkFirstName = JStr ''Ana'', vkLastName = JStr ''Li'',
          accessToken = JStr ''t1'', user = 0, ts_objectId = 1\<rparr>,
         \<lparr>vkId = JNum 7, vkFirstName = JStr ''Ana'', vkLastName = JStr ''Li'',
          accessToken = JStr ''t2'', user = 0, ts_objectId = 2\<rparr>],
      users = [\<lparr>user_objectId = 0, username = [], password = [], sessionToken = ''r''\<rparr>],
      next_objectId = 3, random_calls = 0, journal = []\<rparr>"

definition caller :: parse_user where
  "caller = \<lparr>user_objectId = 0, username = [], password = [], sessionToken = ''r''\<rparr>"

text \<open>A provider whose profile answer is \<^verbatim>\<open>{response: 5}\<close>, and one whose answers are
  \<^verbatim>\<open>{error: "denied"}\<close>.\<close>

definition number_provider :: "nat \<Rightarrow> http_request \<Rightarrow> jsval + http_response" where
  "number_provider n req =
     (if http_method req = ''POST''
      then Inr \<lparr>status = 200,
                data = JObj [(''access_token'', JStr ''t1''), (''user_id'', JNum 7)]\<rparr>
      else Inr \<lparr>status = 200, data = JObj [(''response'', JNum 5)]\<rparr>)"

definition denying_provider :: "nat \<Rightarrow> http_request \<Rightarrow> jsval + http_response" where
  "denying_provider n req = Inr \<lparr>status = 200, data = JObj [(''error'', JStr ''denied'')]\<rparr>"


text \<open>Two first logins of the same identifier, served in turn.\<close>

definition race_calls :: "(jsval \<times> jsval) list" where
  "race_calls = [(JStr ''t1'', JObj [(''id'', JNum 7)]), (JStr ''t2'', JObj [(''id'', JNum 7)])]"

definition race_schedule :: "nat list" where
  "race_schedule = [0, 1, 0, 1, 0, 1, 0, 1, 0, 1, 0, 1]"


section \<open>Running a call\<close>

lemma run_upsert_step:
  "upsert_pending u \<Longrightarrow> upsert_step e u w = (u', w') \<Longrightarrow>
   run_upsert e u w = run_upsert e u' w'"
  by (subst run_upsert.simps) simp

lemma run_upsert_settled: "\<not> upsert_pending u \<Longrightarrow> run_upsert e u w = (u, w)"
  by (simp add: run_upsert.simps)

lemma run_callback_step:
  "callback_pending c \<Longrightarrow> callback_step e c w = (c', w') \<Longrightarrow>
   run_callback e c w = run_callback e c' w'"
  by (subst run_callback.simps) simp

lemma run_callback_done: "run_callback e (Cb_done r) w = (Cb_done r, w)"
  by (simp add: run_callback.simps)

text \<open>For the evaluation of a run on given arguments.\<close>

lemma run_upsert_unfold:
  "upsert_pending u \<Longrightarrow>
   run_upsert e u w = run_upsert e (fst (upsert_step e u w)) (snd (upsert_step e u w))"
  by (subst run_upsert.simps) (simp add: split_beta)

lemma run_callback_unfold:
  "callback_pending c \<Longrightarrow>
   run_callback e c w = run_callback e (fst (callback_step e c w)) (snd (callback_step e c w))"
  by (subst run_callback.simps) (simp add: split_beta)

lemmas store_defs = query_get_def destroy_def httpRequest_def first_by_vkId_def first_by_user_def
  signUp_def save_new_def fetch_def save_def

text \<open>Every call settles, whatever its arguments and whatever the store holds.\<close>

lemma run_upsert_settles: "\<not> upsert_pending (fst (run_upsert e u w))"
proof (induction e u w rule: run_upsert.induct)
  case (1 e u w)
  show ?case
  proof (cases "upsert_pending u")
    case True
    obtain u' w' where step: "upsert_step e u w = (u', w')" by force
    with True 1 show ?thesis
      by (simp add: run_upsert_step [OF True step])
  next
    case False
    then show ?thesis by (simp add: run_upsert_settled)
  qed
qed

lemma run_callback_answers: "\<not> callback_pending (fst (run_callback e c w))"
proof (induction e c w rule: run_callback.induct)
  case (1 e c w)
  show ?case
  proof (cases "callback_pending c")
    case True
    obtain c' w' where step: "callback_step e c w = (c', w')" by force
    with True 1 show ?thesis
      by (simp add: run_callback_step [OF True step])
  next
    case False
    then show ?thesis by (simp add: run_callback.simps)
  qed
qed


lemma run_getVKData_answers: "\<exists>r. fst (run_getVKData e (getVKData request_user) w) = Gv_done r"
  by (cases request_user)
     (auto simp: run_getVKData_def getVKData_def first_by_user_def httpRequest_def
        split: option.splits sum.splits)


section \<open>The check of the query parameters\<close>

text \<open>
  C3. When \<^verbatim>\<open>code\<close> is absent or empty, or \<^verbatim>\<open>state\<close> is absent or empty, the
  callback answers with the error view and the message of an invalid request, and the
  world is the one the handler started in, journal included: no request was made to
  the store or to the provider.
\<close>

theorem callback_invalid_request:
  assumes "js_field req_query ''code'' \<in> {JUndefined, JStr []}
         \<or> js_field req_query ''state'' \<in> {JUndefined, JStr []}"
  shows "run_callback e (oauthCallback req_query) w
           = (Cb_done (Render_error (Plain ''Invalid auth response received.'')), w)"
proof -
  from assms have "\<not> truthy (js_field req_query ''code'') \<or> \<not> truthy (js_field req_query ''state'')"
    by auto
  then have "oauthCallback req_query = Cb_done (Render_error (Plain ''Invalid auth response received.''))"
    by (auto simp: oauthCallback_def)
  then show ?thesis
    by (simp add: run_callback_done)
qed

theorem callback_invalid_request_witness:
  "js_field (JObj [(''state'', JStr ''S1'')]) ''code'' = JUndefined
   \<and> run_callback scenario_env (oauthCallback (JObj [(''state'', JStr ''S1'')])) scenario_world
       = (Cb_done (Render_error (Plain ''Invalid auth response received.'')), scenario_world)"
  using callback_invalid_request [of "JObj [(''state'', JStr ''S1'')]" scenario_env scenario_world]
  by simp

section \<open>The code exchange\<close>

lemma js_field_truthy_receiver: "truthy (js_field v name) \<Longrightarrow> truthy v"
  by (cases v) simp_all

lemma callback_starts:
  "truthy (js_field req_query ''code'') \<Longrightarrow> truthy (js_field req_query ''state'') \<Longrightarrow>
   oauthCallback req_query = Cb_get req_query"
  by (simp add: oauthCallback_def js_field_truthy_receiver)

text \<open>
  A callback with both parameters and a live state looks the TokenRequest up, destroys
  it, and only then is about to send its first request to the provider.
\<close>

lemma callback_reaches_exchange:
  assumes "truthy (js_field req_query ''code'')"
    and "js_field req_query ''state'' = JStr s" and "s \<noteq> []" and "s \<in> tokenRequests w"
  shows "run_callback e (oauthCallback req_query) w
       = run_callback e (Cb_getVKAccessToken req_query)
           (w\<lparr>journal := journal w @ [Get_TokenRequest (JStr s), Destroy_TokenRequest s],
              tokenRequests := tokenRequests w - {s}\<rparr>)"
proof -
  have "run_callback e (oauthCallback req_query) w = run_callback e (Cb_get req_query) w"
    using assms by (simp add: callback_starts)
  also have "\<dots> = run_callback e (Cb_destroy req_query s)
                     (w\<lparr>journal := journal w @ [Get_TokenRequest (JStr s)]\<rparr>)"
    using assms by (intro run_callback_step) (simp_all add: query_get_def)
  also have "\<dots> = run_callback e (Cb_getVKAccessToken req_query)
           (w\<lparr>journal := journal w @ [Get_TokenRequest (JStr s), Destroy_TokenRequest s],
              tokenRequests := tokenRequests w - {s}\<rparr>)"
    using assms by (intro run_callback_step) (simp_all add: destroy_def)
  finally show ?thesis .
qed

text \<open>
  C8. A callback that passed the parameter check and consumed its TokenRequest sends the
  token request. When the provider's answer lacks the access token or the user
  identifier (the member is absent, or has a falsy value such as the empty string or 0),
  the callback answers with the error view for \<^verbatim>\<open>"Invalid access request."\<close>; when the
  request itself is rejected, it answers with the error view for the rejection. In both
  cases the journal then holds the lookup, the destroy and the token request and nothing
  more: no profile request was sent and the upsert made no request to the store.
\<close>

theorem callback_token_exchange_failed:
  assumes "truthy (js_field req_query ''code'')"
    and "js_field req_query ''state'' = JStr s" and "s \<noteq> []" and "s \<in> tokenRequests w"
  shows "(provider e (length (journal w) + 2) (getVKAccessToken (js_field req_query ''code''))
            = Inr access
          \<and> (\<not> truthy (js_field (data access) ''access_token'')
               \<or> \<not> truthy (js_field (data access) ''user_id'')) \<longrightarrow>
          run_callback e (oauthCallback req_query) w
          = (Cb_done (Render_error (JSON_stringify (JStr ''Invalid access request.''))),
             w\<lparr>journal := journal w @ [Get_TokenRequest (JStr s), Destroy_TokenRequest s,
                                       Http (getVKAccessToken (js_field req_query ''code''))],
               tokenRequests := tokenRequests w - {s}\<rparr>))
       \<and> (provider e (length (journal w) + 2) (getVKAccessToken (js_field req_query ''code''))
            = Inl err \<longrightarrow>
          run_callback e (oauthCallback req_query) w
          = (Cb_done (on_error err),
             w\<lparr>journal := journal w @ [Get_TokenRequest (JStr s), Destroy_TokenRequest s,
                                       Http (getVKAccessToken (js_field req_query ''code''))],
               tokenRequests := tokenRequests w - {s}\<rparr>))"
proof (intro conjI impI)
  let ?w2 = "w\<lparr>journal := journal w @ [Get_TokenRequest (JStr s), Destroy_TokenRequest s],
              tokenRequests := tokenRequests w - {s}\<rparr>"
  let ?w3 = "?w2\<lparr>journal := journal ?w2 @ [Http (getVKAccessToken (js_field req_query ''code''))]\<rparr>"
  have reach: "run_callback e (oauthCallback req_query) w
      = run_callback e (Cb_getVKAccessToken req_query) ?w2"
    using assms by (rule callback_reaches_exchange)
  {
    assume a: "provider e (length (journal w) + 2) (getVKAccessToken (js_field req_query ''code''))
            = Inr access
          \<and> (\<not> truthy (js_field (data access) ''access_token'')
               \<or> \<not> truthy (js_field (data access) ''user_id''))"
    have "run_callback e (Cb_getVKAccessToken req_query) ?w2
        = run_callback e (Cb_done (on_error (JStr ''Invalid access request.''))) ?w3"
      using a by (intro run_callback_step) (auto simp: httpRequest_def Let_def)
    with reach show "run_callback e (oauthCallback req_query) w
          = (Cb_done (Render_error (JSON_stringify (JStr ''Invalid access request.''))),
             w\<lparr>journal := journal w @ [Get_TokenRequest (JStr s), Destroy_TokenRequest s,
                                       Http (getVKAccessToken (js_field req_query ''code''))],
               tokenRequests := tokenRequests w - {s}\<rparr>)"
      by (simp add: run_callback_done on_error_def)
  }
  {
    assume a: "provider e (length (journal w) + 2) (getVKAccessToken (js_field req_query ''code''))
            = Inl err"
    have "run_callback e (Cb_getVKAccessToken req_query) ?w2
        = run_callback e (Cb_done (on_error err)) ?w3"
      using a by (intro run_callback_step) (auto simp: httpRequest_def Let_def)
    with reach show "run_callback e (oauthCallback req_query) w
          = (Cb_done (on_error err),
             w\<lparr>journal := journal w @ [Get_TokenRequest (JStr s), Destroy_TokenRequest s,
                                       Http (getVKAccessToken (js_field req_query ''code''))],
               tokenRequests := tokenRequests w - {s}\<rparr>)"
      by (simp add: run_callback_done)
  }
qed

theorem callback_token_exchange_failed_witness:
  "run_callback
     (scenario_env\<lparr>provider :=
        \<lambda>n req. Inr \<lparr>status = 200, data = JObj [(''access_token'', JStr ''t1'')]\<rparr>\<rparr>)
     (oauthCallback scenario_query) scenario_world
   = (Cb_done (Render_error (JSON_stringify (JStr ''Invalid access request.''))),
      scenario_world\<lparr>journal := [Get_TokenRequest (JStr ''S1''), Destroy_TokenRequest ''S1'',
                                  Http (getVKAccessToken (JStr ''c1''))],
                     tokenRequests := {}\<rparr>)"
  using callback_token_exchange_failed [of scenario_query "''S1''" scenario_world
     "scenario_env\<lparr>provider :=
        \<lambda>n req. Inr \<lparr>status = 200, data = JObj [(''access_token'', JStr ''t1'')]\<rparr>\<rparr>"
     "\<lparr>status = 200, data = JObj [(''access_token'', JStr ''t1'')]\<rparr>"]
  by (simp add: scenario_query_def scenario_world_def scenario_env_def)


section \<open>One call of the upsert, run alone\<close>

lemma find_user_Some:
  "\<exists>u \<in> set us. user_objectId u = n \<Longrightarrow> \<exists>u. find (\<lambda>u. user_objectId u = n) us = Some u"
  by (cases "find (\<lambda>u. user_objectId u = n) us") (auto simp: find_None_iff)

lemma find_Some_mem: "find P xs = Some x \<Longrightarrow> x \<in> set xs \<and> P x"
  by (induction xs) (auto split: if_splits)

lemma find_user_objectId: "find (\<lambda>u. user_objectId u = n) us = Some u \<Longrightarrow> user_objectId u = n"
  by (auto dest: find_Some_mem)

lemma find_map_token:
  "find (\<lambda>r. vkId r = v) (map (\<lambda>r. if P r then r\<lparr>accessToken := t\<rparr> else r) rs)
   = map_option (\<lambda>r. if P r then r\<lparr>accessToken := t\<rparr> else r) (find (\<lambda>r. vkId r = v) rs)"
  by (induction rs) auto

lemma find_vkId_save:
  "find (\<lambda>r. vkId r = v) (tokenStorage (save td d w))
   = map_option
       (\<lambda>r. if d \<and> ts_objectId r = ts_objectId td then r\<lparr>accessToken := accessToken td\<rparr> else r)
       (find (\<lambda>r. vkId r = v) (tokenStorage w))"
  by (cases d) (simp_all add: save_def find_map_token option.map_ident)

lemma users_save: "users (save td d w) = users w"
  by (simp add: save_def)

lemma not_strict_neq: "\<not> strict_neq a b \<Longrightarrow> a = b"
  by (cases a) simp_all

lemma upsert_found:
  assumes "find (\<lambda>r. vkId r = v) (tokenStorage w) = Some l"
    and "find (\<lambda>u. user_objectId u = user l) (users w) = Some u"
  shows "run_upsert e (Up_first token vkData v) w
       = (Up_resolved u,
          save (l\<lparr>accessToken := token\<rparr>) (strict_neq token (accessToken l))
            (w\<lparr>journal := journal w @ [First_TokenStorage_vkId v, Fetch_User (user l)]\<rparr>))"
proof -
  let ?w1 = "w\<lparr>journal := journal w @ [First_TokenStorage_vkId v]\<rparr>"
  let ?w2 = "w\<lparr>journal := journal w @ [First_TokenStorage_vkId v, Fetch_User (user l)]\<rparr>"
  let ?d = "strict_neq token (accessToken l)"
  have "run_upsert e (Up_first token vkData v) w = run_upsert e (Up_fetch token l) ?w1"
    using assms(1) by (intro run_upsert_step) (simp_all add: first_by_vkId_def)
  also have "\<dots> = run_upsert e (Up_save (if ?d then l\<lparr>accessToken := token\<rparr> else l) ?d u) ?w2"
    using assms(2) by (intro run_upsert_step) (simp_all add: fetch_def)
  also have "\<dots> = run_upsert e (Up_resolved u)
                     (save (if ?d then l\<lparr>accessToken := token\<rparr> else l) ?d ?w2)"
    by (intro run_upsert_step) simp_all
  also have "save (if ?d then l\<lparr>accessToken := token\<rparr> else l) ?d ?w2
           = save (l\<lparr>accessToken := token\<rparr>) ?d ?w2"
    by (simp add: save_def)
  finally show ?thesis
    by (simp add: run_upsert.simps)
qed

lemma upsert_found_dangling:
  assumes "find (\<lambda>r. vkId r = v) (tokenStorage w) = Some l"
    and "find (\<lambda>u. user_objectId u = user l) (users w) = None"
  shows "run_upsert e (Up_first token vkData v) w
       = (Up_rejected object_not_found,
          w\<lparr>journal := journal w @ [First_TokenStorage_vkId v, Fetch_User (user l)]\<rparr>)"
proof -
  let ?w1 = "w\<lparr>journal := journal w @ [First_TokenStorage_vkId v]\<rparr>"
  let ?w2 = "w\<lparr>journal := journal w @ [First_TokenStorage_vkId v, Fetch_User (user l)]\<rparr>"
  have "run_upsert e (Up_first token vkData v) w = run_upsert e (Up_fetch token l) ?w1"
    using assms(1) by (intro run_upsert_step) (simp_all add: first_by_vkId_def)
  also have "\<dots> = run_upsert e (Up_rejected object_not_found) ?w2"
    using assms(2) by (intro run_upsert_step) (simp_all add: fetch_def)
  finally show ?thesis
    by (simp add: run_upsert.simps)
qed

text \<open>
  The not-found branch: after the query, \<^verbatim>\<open>signUp\<close> and the creation of the row, the
  call is again at the start of \<^verbatim>\<open>upsertVKUser\<close>, with the same arguments.
\<close>

lemma upsert_not_found:
  assumes "find (\<lambda>r. vkId r = v) (tokenStorage w) = None"
    and "js_get vkData ''id'' = Inr v"
  shows "run_upsert e (Up_first token vkData v) w
       = run_upsert e (Up_first token vkData v) (after_creation e token vkData v w)"
proof -
  let ?w1 = "w\<lparr>journal := journal w @ [First_TokenStorage_vkId v],
               random_calls := random_calls w + 48\<rparr>"
  let ?w2 = "?w1\<lparr>users := users w @ [new_user e w], next_objectId := Suc (next_objectId w),
                journal := journal ?w1 @ [SignUp_User (next_objectId w)]\<rparr>"
  have "run_upsert e (Up_first token vkData v) w
      = run_upsert e (Up_signUp token vkData (username (new_user e w)) (password (new_user e w))) ?w1"
    using assms(1)
    by (intro run_upsert_step) (simp_all add: first_by_vkId_def newVKUser_def new_user_def Let_def)
  also have "\<dots> = run_upsert e (Up_create token vkData
       \<lparr>vkId = v, vkFirstName = js_field vkData ''first_name'',
        vkLastName = js_field vkData ''last_name'', accessToken = token,
        user = next_objectId w\<rparr>) ?w2"
    using assms(2)
    by (intro run_upsert_step) (simp_all add: signUp_def new_user_def Let_def)
  also have "\<dots> = run_upsert e (Up_first token vkData v) (after_creation e token vkData v w)"
    using assms(2)
    by (intro run_upsert_step)
       (simp_all add: save_new_def upsertVKUser_def new_link_def after_creation_def Let_def)
  finally show ?thesis .
qed

lemma upsert_threw:
  "js_get vkData ''id'' = Inl x \<Longrightarrow> run_upsert e (upsertVKUser token vkData) w = (Up_threw x, w)"
  by (simp add: upsertVKUser_def run_upsert.simps)

text \<open>A call that finds a row whose user exists.\<close>

lemma upsert_call_found:
  assumes "js_get vkData ''id'' = Inr v"
    and "find (\<lambda>r. vkId r = v) (tokenStorage w) = Some l"
    and "find (\<lambda>u. user_objectId u = user l) (users w) = Some u"
  shows "\<exists>w'. run_upsert e (upsertVKUser token vkData) w = (Up_resolved u, w')
          \<and> find (\<lambda>r. vkId r = v) (tokenStorage w') = Some (l\<lparr>accessToken := token\<rparr>)
          \<and> users w' = users w
          \<and> (\<not> strict_neq token (accessToken l) \<longrightarrow> tokenStorage w' = tokenStorage w)
          \<and> journal w' = journal w @ [First_TokenStorage_vkId v, Fetch_User (user l),
               Update_TokenStorage (ts_objectId l)
                 (if strict_neq token (accessToken l) then [(''accessToken'', token)] else [])]"
proof -
  let ?d = "strict_neq token (accessToken l)"
  let ?w2 = "w\<lparr>journal := journal w @ [First_TokenStorage_vkId v, Fetch_User (user l)]\<rparr>"
  let ?w' = "save (l\<lparr>accessToken := token\<rparr>) ?d ?w2"
  have run: "run_upsert e (upsertVKUser token vkData) w = (Up_resolved u, ?w')"
    using assms by (simp add: upsertVKUser_def upsert_found)
  have "find (\<lambda>r. vkId r = v) (tokenStorage ?w')
      = Some (if ?d then l\<lparr>accessToken := token\<rparr> else l)"
    using assms(2) by (simp add: find_vkId_save)
  moreover have "\<not> ?d \<Longrightarrow> l\<lparr>accessToken := token\<rparr> = l"
    using not_strict_neq [of token "accessToken l"] by simp
  ultimately have eff:
    "find (\<lambda>r. vkId r = v) (tokenStorage ?w') = Some (l\<lparr>accessToken := token\<rparr>)"
    by (cases ?d) simp_all
  have "journal ?w' = journal w @ [First_TokenStorage_vkId v, Fetch_User (user l),
               Update_TokenStorage (ts_objectId l) (if ?d then [(''accessToken'', token)] else [])]"
    by (simp add: save_def)
  moreover have "\<not> ?d \<longrightarrow> tokenStorage ?w' = tokenStorage w"
    by (simp add: save_def)
  ultimately show ?thesis
    using run eff by (intro exI [of _ ?w']) (simp add: users_save)
qed

text \<open>A call that finds a row whose user does not exist.\<close>

lemma upsert_call_dangling:
  assumes "js_get vkData ''id'' = Inr v"
    and "find (\<lambda>r. vkId r = v) (tokenStorage w) = Some l"
    and "find (\<lambda>u. user_objectId u = user l) (users w) = None"
  shows "run_upsert e (upsertVKUser token vkData) w
       = (Up_rejected object_not_found,
          w\<lparr>journal := journal w @ [First_TokenStorage_vkId v, Fetch_User (user l)]\<rparr>)"
  using assms by (simp add: upsertVKUser_def upsert_found_dangling)

text \<open>A call that finds no row.\<close>

lemma upsert_call_not_found:
  assumes "js_get vkData ''id'' = Inr v"
    and "find (\<lambda>r. vkId r = v) (tokenStorage w) = None"
  shows "\<exists>u w'. run_upsert e (upsertVKUser token vkData) w = (Up_resolved u, w')
          \<and> user_objectId u = next_objectId w
          \<and> find (\<lambda>u. user_objectId u = next_objectId w) (users w') = Some u
          \<and> find (\<lambda>r. vkId r = v) (tokenStorage w') = Some (new_link token vkData v w)
          \<and> users w' = users w @ [new_user e w]
          \<and> journal w' = journal w @ [First_TokenStorage_vkId v, SignUp_User (next_objectId w),
                 Create_TokenStorage (Suc (next_objectId w)), First_TokenStorage_vkId v,
                 Fetch_User (next_objectId w),
                 Update_TokenStorage (Suc (next_objectId w))
                   (if strict_neq token token then [(''accessToken'', token)] else [])]"
proof -
  let ?w3 = "after_creation e token vkData v w"
  let ?l = "new_link token vkData v w"
  have link: "find (\<lambda>r. vkId r = v) (tokenStorage ?w3) = Some ?l"
    using assms(2) by (simp add: after_creation_def find_append new_link_def)
  have "\<exists>u \<in> set (users ?w3). user_objectId u = user ?l"
    by (simp add: after_creation_def new_link_def new_user_def)
  then obtain u where u: "find (\<lambda>u. user_objectId u = user ?l) (users ?w3) = Some u"
    using find_user_Some by blast
  have run: "run_upsert e (upsertVKUser token vkData) w
           = run_upsert e (upsertVKUser token vkData) ?w3"
    using assms by (simp add: upsertVKUser_def upsert_not_found)
  obtain w' where w': "run_upsert e (upsertVKUser token vkData) ?w3 = (Up_resolved u, w')"
      "find (\<lambda>r. vkId r = v) (tokenStorage w') = Some (?l\<lparr>accessToken := token\<rparr>)"
      "users w' = users ?w3"
      "journal w' = journal ?w3 @ [First_TokenStorage_vkId v, Fetch_User (user ?l),
               Update_TokenStorage (ts_objectId ?l)
                 (if strict_neq token (accessToken ?l) then [(''accessToken'', token)] else [])]"
    using upsert_call_found [OF assms(1) link u, of e token] by blast
  have "?l\<lparr>accessToken := token\<rparr> = ?l" by (simp add: new_link_def)
  with run w' u show ?thesis
    by (intro exI [of _ u] exI [of _ w'])
       (simp add: after_creation_def new_link_def
          find_user_objectId [OF u, simplified new_link_def, simplified])
qed

text \<open>When the oldest row has its user, a call resolves, and leaves the token it was given in the
  oldest row of its identifier.\<close>

lemma upsert_call:
  assumes "js_get vkData ''id'' = Inr v" and "oldest_has_user v w"
  shows "\<exists>u l w'. run_upsert e (upsertVKUser token vkData) w = (Up_resolved u, w')
          \<and> find (\<lambda>r. vkId r = v) (tokenStorage w') = Some l \<and> accessToken l = token
          \<and> find (\<lambda>u. user_objectId u = user l) (users w') = Some u"
proof (cases "find (\<lambda>r. vkId r = v) (tokenStorage w)")
  case None
  from upsert_call_not_found [OF assms(1) None, of e token]
  show ?thesis by (auto simp: new_link_def)
next
  case (Some l)
  then have "\<exists>u \<in> set (users w). user_objectId u = user l"
    using assms(2) by (simp add: oldest_has_user_def)
  then obtain u where u: "find (\<lambda>u. user_objectId u = user l) (users w) = Some u"
    using find_user_Some by blast
  from upsert_call_found [OF assms(1) Some u, of e token]
  show ?thesis using u by auto
qed

section \<open>Termination of the upsert\<close>

text \<open>
  C7. The run of a call is a total function (its termination is proved with
  \<open>upsert_fuel\<close>), and
  \<^item> for every token, profile value and store the call settles: it resolves, is
    rejected, or throws;
  \<^item> when the profile has a readable \<^verbatim>\<open>id\<close> and no row has that identifier, the call
    resolves with the user it created; its journal is the query, \<^verbatim>\<open>signUp\<close>, the
    creation of the row, the query of the re-run, the fetch of the user and the save of
    the row that the re-run found, which carries no attribute or the token. So the query
    of the re-run found the row just created (no other call ran in between), and
    \<^verbatim>\<open>signUp\<close> was requested once;
  \<^item> when the profile has a readable \<^verbatim>\<open>id\<close> and the user of the oldest row exists, the call
    resolves with the user that the oldest row of the identifier points to.
\<close>

theorem upsert_returns_account:
  "\<not> upsert_pending (fst (run_upsert e (upsertVKUser token vkData) w))
   \<and> (js_get vkData ''id'' = Inr v \<and> find (\<lambda>r. vkId r = v) (tokenStorage w) = None \<longrightarrow>
        (\<exists>u w' body. run_upsert e (upsertVKUser token vkData) w = (Up_resolved u, w')
           \<and> user_objectId u = next_objectId w
           \<and> find (\<lambda>r. vkId r = v) (tokenStorage w') = Some (new_link token vkData v w)
           \<and> journal w' = journal w
                @ [First_TokenStorage_vkId v, SignUp_User (next_objectId w),
                   Create_TokenStorage (Suc (next_objectId w)),
                   First_TokenStorage_vkId v, Fetch_User (next_objectId w),
                   Update_TokenStorage (Suc (next_objectId w)) body]
           \<and> (body = [] \<or> body = [(''accessToken'', token)])))
   \<and> (js_get vkData ''id'' = Inr v \<and> oldest_has_user v w \<longrightarrow>
        (\<exists>u l w'. run_upsert e (upsertVKUser token vkData) w = (Up_resolved u, w')
           \<and> find (\<lambda>r. vkId r = v) (tokenStorage w') = Some l \<and> user l = user_objectId u))"
proof (intro conjI impI)
  show "\<not> upsert_pending (fst (run_upsert e (upsertVKUser token vkData) w))"
    by (rule run_upsert_settles)
next
  assume a: "js_get vkData ''id'' = Inr v \<and> find (\<lambda>r. vkId r = v) (tokenStorage w) = None"
  then have id: "js_get vkData ''id'' = Inr v"
    and none: "find (\<lambda>r. vkId r = v) (tokenStorage w) = None"
    by simp_all
  from upsert_call_not_found [OF id none, of e token]
  obtain u w' where *: "run_upsert e (upsertVKUser token vkData) w = (Up_resolved u, w')"
    "user_objectId u = next_objectId w"
    "find (\<lambda>r. vkId r = v) (tokenStorage w') = Some (new_link token vkData v w)"
    "journal w' = journal w @ [First_TokenStorage_vkId v, SignUp_User (next_objectId w),
                 Create_TokenStorage (Suc (next_objectId w)), First_TokenStorage_vkId v,
                 Fetch_User (next_objectId w),
                 Update_TokenStorage (Suc (next_objectId w))
                   (if strict_neq token token then [(''accessToken'', token)] else [])]"
    by blast
  show "\<exists>u w' body. run_upsert e (upsertVKUser token vkData) w = (Up_resolved u, w')
           \<and> user_objectId u = next_objectId w
           \<and> find (\<lambda>r. vkId r = v) (tokenStorage w') = Some (new_link token vkData v w)
           \<and> journal w' = journal w
                @ [First_TokenStorage_vkId v, SignUp_User (next_objectId w),
                   Create_TokenStorage (Suc (next_objectId w)),
                   First_TokenStorage_vkId v, Fetch_User (next_objectId w),
                   Update_TokenStorage (Suc (next_objectId w)) body]
           \<and> (body = [] \<or> body = [(''accessToken'', token)])"
    using *
    by (intro exI [of _ u] exI [of _ w']
          exI [of _ "if strict_neq token token then [(''accessToken'', token)] else []"])
       simp
next
  assume "js_get vkData ''id'' = Inr v \<and> oldest_has_user v w"
  then have "js_get vkData ''id'' = Inr v" and "oldest_has_user v w" by simp_all
  from upsert_call [OF this, of e token]
  show "\<exists>u l w'. run_upsert e (upsertVKUser token vkData) w = (Up_resolved u, w')
           \<and> find (\<lambda>r. vkId r = v) (tokenStorage w') = Some l \<and> user l = user_objectId u"
    by (auto dest: find_user_objectId)
qed

theorem upsert_returns_account_witness:
  "\<exists>u w' body. run_upsert scenario_env (upsertVKUser (JStr ''t1'') (JObj [(''id'', JNum 7)]))
                 scenario_world = (Up_resolved u, w')
      \<and> user_objectId u = 0
      \<and> journal w' = [First_TokenStorage_vkId (JNum 7), SignUp_User 0, Create_TokenStorage 1,
                       First_TokenStorage_vkId (JNum 7), Fetch_User 0,
                       Update_TokenStorage 1 body]"
proof -
  have h1: "js_get (JObj [(''id'', JNum 7)]) ''id'' = Inr (JNum 7)"
    by (simp add: js_get_def)
  have h2: "find (\<lambda>r. vkId r = JNum 7) (tokenStorage scenario_world) = None"
    by (simp add: scenario_world_def)
  have h3: "next_objectId scenario_world = 0" "journal scenario_world = []"
    by (simp_all add: scenario_world_def)
  from upsert_returns_account [of scenario_env "JStr ''t1''" "JObj [(''id'', JNum 7)]"
      scenario_world "JNum 7"] h1 h2
  show ?thesis unfolding h3 by auto
qed


section \<open>Two calls in a row\<close>

text \<open>A call that resolved leaves a row with the identifier of the profile, and the user
  it returned is the one that row points to.\<close>

lemma resolved_call:
  assumes "run_upsert e (upsertVKUser token vkData) w = (Up_resolved u, w1)"
  shows "\<exists>v l. js_get vkData ''id'' = Inr v
           \<and> find (\<lambda>r. vkId r = v) (tokenStorage w1) = Some l
           \<and> accessToken l = token
           \<and> find (\<lambda>x. user_objectId x = user l) (users w1) = Some u"
proof (cases "js_get vkData ''id''")
  case (Inl x)
  with assms show ?thesis by (simp add: upsert_threw)
next
  case (Inr v)
  show ?thesis
  proof (cases "find (\<lambda>r. vkId r = v) (tokenStorage w)")
    case None
    from upsert_call_not_found [OF Inr None, of e token] assms Inr
    show ?thesis by (auto simp: new_link_def)
  next
    case (Some l)
    show ?thesis
    proof (cases "find (\<lambda>x. user_objectId x = user l) (users w)")
      case None
      from upsert_call_dangling [OF Inr Some None, of e token] assms
      show ?thesis by simp
    next
      case (Some u')
      from upsert_call_found [OF Inr \<open>find (\<lambda>r. vkId r = v) (tokenStorage w) = Some l\<close> Some, of e token]
        assms Inr Some
      show ?thesis by auto
    qed
  qed
qed

text \<open>
  C5. A call that returns a user, followed by a second call for the same profile with
  another access token: the second call returns the same user, and afterwards the
  oldest row of the identifier holds the token of the second call and points to that
  user. (The two tokens need not even differ.)
\<close>

theorem upsert_second_token:
  assumes "run_upsert e (upsertVKUser token1 vkData) w = (Up_resolved u, w1)"
    and "run_upsert e (upsertVKUser token2 vkData) w1 = (r2, w2)"
  shows "r2 = Up_resolved u
       \<and> (\<exists>v l. js_get vkData ''id'' = Inr v
             \<and> find (\<lambda>r. vkId r = v) (tokenStorage w2) = Some l
             \<and> accessToken l = token2 \<and> user l = user_objectId u)"
proof -
  from resolved_call [OF assms(1)]
  obtain v l1 where 1: "js_get vkData ''id'' = Inr v"
    "find (\<lambda>r. vkId r = v) (tokenStorage w1) = Some l1"
    "find (\<lambda>x. user_objectId x = user l1) (users w1) = Some u"
    by blast
  from upsert_call_found [OF 1, of e token2] assms(2)
  have "r2 = Up_resolved u"
    and "find (\<lambda>r. vkId r = v) (tokenStorage w2) = Some (l1\<lparr>accessToken := token2\<rparr>)"
    by auto
  with 1(1) show ?thesis
    using find_user_objectId [OF 1(3)] by simp
qed

theorem upsert_second_token_witness:
  "fst (run_upsert scenario_env (upsertVKUser (JStr ''t2'') (JObj [(''id'', JNum 7)]))
          (snd (run_upsert scenario_env (upsertVKUser (JStr ''t1'') (JObj [(''id'', JNum 7)]))
                  scenario_world)))
   = Up_resolved (new_user scenario_env scenario_world)"
proof -
  have h1: "run_upsert scenario_env (upsertVKUser (JStr ''t1'') (JObj [(''id'', JNum 7)]))
              scenario_world
            = (Up_resolved (new_user scenario_env scenario_world),
               snd (run_upsert scenario_env (upsertVKUser (JStr ''t1'') (JObj [(''id'', JNum 7)]))
                      scenario_world))"
    by (simp add: prod_eq_iff run_upsert_unfold run_upsert_settled upsertVKUser_def js_get_def
          scenario_world_def scenario_env_def store_defs newVKUser_def new_user_def Let_def)
  show ?thesis
    using upsert_second_token [OF h1, of "JStr ''t2''"
        "fst (run_upsert scenario_env (upsertVKUser (JStr ''t2'') (JObj [(''id'', JNum 7)]))
          (snd (run_upsert scenario_env (upsertVKUser (JStr ''t1'') (JObj [(''id'', JNum 7)]))
                  scenario_world)))"
        "snd (run_upsert scenario_env (upsertVKUser (JStr ''t2'') (JObj [(''id'', JNum 7)]))
          (snd (run_upsert scenario_env (upsertVKUser (JStr ''t1'') (JObj [(''id'', JNum 7)]))
                  scenario_world)))"]
    by simp
qed


section \<open>The same token again\<close>

text \<open>
  The second of two calls with the same string token, after a first call that resolved:
  no row changes, and the call sends the query, the fetch and the save of the row, with
  an empty body.
\<close>

lemma upsert_same_token_saves_again:
  assumes "run_upsert e (upsertVKUser (JStr t) vkData) w = (Up_resolved u, w1)"
    and "run_upsert e (upsertVKUser (JStr t) vkData) w1 = (r2, w2)"
  shows "r2 = Up_resolved u \<and> tokenStorage w2 = tokenStorage w1
       \<and> (\<exists>v l. find (\<lambda>r. vkId r = v) (tokenStorage w1) = Some l
             \<and> journal w2 = journal w1 @ [First_TokenStorage_vkId v, Fetch_User (user l),
                  Update_TokenStorage (ts_objectId l) []])"
proof -
  from resolved_call [OF assms(1)]
  obtain v l where 1: "js_get vkData ''id'' = Inr v"
    "find (\<lambda>r. vkId r = v) (tokenStorage w1) = Some l"
    "find (\<lambda>x. user_objectId x = user l) (users w1) = Some u"
    and tok: "accessToken l = JStr t"
    by blast
  from upsert_call_found [OF 1, of e "JStr t"] assms(2) tok
  have "r2 = Up_resolved u" and "tokenStorage w2 = tokenStorage w1"
    and "journal w2 = journal w1 @ [First_TokenStorage_vkId v, Fetch_User (user l),
                  Update_TokenStorage (ts_objectId l) []]"
    by auto
  with 1(2) show ?thesis by blast
qed

text \<open>
  C4, on the code. Two calls in a row for the identifier 7 with the same access token
  \<^verbatim>\<open>"t1"\<close>, from the empty store: the first call creates the user 0 and the row 1. The
  second call finds the token unchanged and sets nothing, and then calls
  \<^verbatim>\<open>tokenData.save()\<close> all the same (line 292): its journal is the query, the fetch
  and a request that updates the row 1, with an empty body. So the second call does
  send a write for the link, against the claim and against the comment of lines
  288-291. No attribute of the row changes.
\<close>

theorem second_call_same_token_sends_save:
  "snd (run_upsert scenario_env (upsertVKUser (JStr ''t1'') (JObj [(''id'', JNum 7)]))
     (snd (run_upsert scenario_env (upsertVKUser (JStr ''t1'') (JObj [(''id'', JNum 7)]))
             scenario_world)))
   = (snd (run_upsert scenario_env (upsertVKUser (JStr ''t1'') (JObj [(''id'', JNum 7)]))
             scenario_world))
     \<lparr>journal :=
        [First_TokenStorage_vkId (JNum 7), SignUp_User 0, Create_TokenStorage 1,
         First_TokenStorage_vkId (JNum 7), Fetch_User 0, Update_TokenStorage 1 [],
         First_TokenStorage_vkId (JNum 7), Fetch_User 0, Update_TokenStorage 1 []]\<rparr>
   \<and> filter link_write
        (drop 6 (journal
          (snd (run_upsert scenario_env (upsertVKUser (JStr ''t1'') (JObj [(''id'', JNum 7)]))
            (snd (run_upsert scenario_env (upsertVKUser (JStr ''t1'') (JObj [(''id'', JNum 7)]))
                    scenario_world))))))
       = [Update_TokenStorage 1 []]"
  by (simp add: run_upsert_unfold run_upsert_settled upsertVKUser_def js_get_def
        scenario_world_def scenario_env_def store_defs newVKUser_def Let_def)

text \<open>
  A token that is an array is never identical to its stored copy (line 285): the second
  call sets it and writes it again.
\<close>

lemma array_token_written_again:
  "filter link_write
     (drop 6 (journal
       (snd (run_upsert scenario_env (upsertVKUser (JArr [JNum 1]) (JObj [(''id'', JNum 7)]))
         (snd (run_upsert scenario_env (upsertVKUser (JArr [JNum 1]) (JObj [(''id'', JNum 7)]))
                 scenario_world))))))
   = [Update_TokenStorage 1 [(''accessToken'', JArr [JNum 1])]]"
  by (simp add: run_upsert_unfold run_upsert_settled upsertVKUser_def js_get_def
        scenario_world_def scenario_env_def store_defs newVKUser_def Let_def)


section \<open>The identifier of the link\<close>

text \<open>
  C1. The scenario of the specification, run on the code: the callback checks the
  member \<^verbatim>\<open>uid\<close> of the profile, and the upsert reads the member \<^verbatim>\<open>id\<close>, which this
  profile does not have. The callback succeeds and creates one user and one row, and the
  row's \<^verbatim>\<open>vkId\<close> is undefined, not 7; both queries of the upsert ask for the rows whose
  \<^verbatim>\<open>vkId\<close> is undefined. (The last request is the save of line 292, with nothing set.)
\<close>

theorem scenario_link_keyed_by_id_member:
  "run_callback scenario_env (oauthCallback scenario_query) scenario_world
   = (Cb_done (Render_store_auth []),
      \<lparr>tokenRequests = {},
       tokenStorage = [\<lparr>vkId = JUndefined, vkFirstName = JStr ''Ana'', vkLastName = JStr ''Li'',
                        accessToken = JStr ''t1'', user = 0, ts_objectId = 1\<rparr>],
       users = [new_user scenario_env scenario_world],
       next_objectId = 2, random_calls = 48,
       journal = [Get_TokenRequest (JStr ''S1''), Destroy_TokenRequest ''S1'',
                  Http (getVKAccessToken (JStr ''c1'')), Http (getVKUserDetails (JStr ''t1'')),
                  First_TokenStorage_vkId JUndefined, SignUp_User 0, Create_TokenStorage 1,
                  First_TokenStorage_vkId JUndefined, Fetch_User 0,
                  Update_TokenStorage 1 []]\<rparr>)"
  by (simp add: run_callback_unfold run_callback_done oauthCallback_def scenario_query_def
        scenario_world_def scenario_env_def scenario_provider_def store_defs
        getVKAccessToken_def getVKUserDetails_def response0_def js_get_def upsertVKUser_def
        newVKUser_def new_user_def Let_def)


text \<open>
  What follows from it: every profile without the member \<^verbatim>\<open>id\<close> has the identifier
  undefined. After the login of the scenario, the first login of a second person, with
  \<^verbatim>\<open>uid\<close> 8, creates no user and answers with the session token of the first person's
  user.
\<close>

lemma second_person_gets_first_account:
  "fst (run_callback (scenario_env\<lparr>provider := second_provider\<rparr>) (oauthCallback second_query)
     ((snd (run_callback scenario_env (oauthCallback scenario_query) scenario_world))
        \<lparr>tokenRequests := {''S2''}\<rparr>))
   = fst (run_callback scenario_env (oauthCallback scenario_query) scenario_world)
   \<and> users (snd (run_callback (scenario_env\<lparr>provider := second_provider\<rparr>)
        (oauthCallback second_query)
        ((snd (run_callback scenario_env (oauthCallback scenario_query) scenario_world))
           \<lparr>tokenRequests := {''S2''}\<rparr>)))
   = users (snd (run_callback scenario_env (oauthCallback scenario_query) scenario_world))"
  by (simp add: run_callback_unfold run_callback_done oauthCallback_def scenario_query_def
        second_query_def scenario_world_def scenario_env_def scenario_provider_def
        second_provider_def store_defs getVKAccessToken_def getVKUserDetails_def response0_def
        js_get_def upsertVKUser_def newVKUser_def new_user_def Let_def)


section \<open>The signed-in profile query\<close>

lemma find_first_match:
  "\<forall>r \<in> set older. \<not> P r \<Longrightarrow> P l \<Longrightarrow> find P (older @ l # newer) = Some l"
  by (induction older) auto

text \<open>
  C9. The cloud function \<^verbatim>\<open>getVKData\<close>:
  \<^item> without a signed-in caller it answers with the error \<^verbatim>\<open>'Must be logged in.'\<close> and
    makes no request;
  \<^item> when no TokenStorage row points to the caller, it answers with the error
    \<^verbatim>\<open>'No VK data found.'\<close> after the query, and sends nothing to the provider;
  \<^item> otherwise it takes the oldest row that points to the caller (rows created later,
    for the caller or not, do not matter) and sends one request to the provider: a GET
    to the user endpoint whose only parameter is \<^verbatim>\<open>access_token\<close>, with the access token
    stored in that row as its value. When the provider answers that request with a body
    whose \<^verbatim>\<open>response[0]\<close> can be read, the function answers with that value.
\<close>

theorem getVKData_contract:
  "run_getVKData e (getVKData None) w = (Gv_done (Error (JStr ''Must be logged in.'')), w)
   \<and> ((\<forall>r \<in> set (tokenStorage w). user r \<noteq> user_objectId u) \<longrightarrow>
        run_getVKData e (getVKData (Some u)) w
        = (Gv_done (Error (JStr ''No VK data found.'')),
           w\<lparr>journal := journal w @ [First_TokenStorage_user (user_objectId u)]\<rparr>))
   \<and> (tokenStorage w = older @ l # newer \<and> (\<forall>r \<in> set older. user r \<noteq> user_objectId u)
        \<and> user l = user_objectId u
        \<and> provider e (Suc (length (journal w))) (HttpRequest ''GET'' ''https://api.vk.com/method/users.get''
              [(''User-Agent'', ''Parse.com Cloud Code'')] [(''access_token'', accessToken l)])
           = Inr userDataResponse
        \<and> response0 userDataResponse = Inr profile \<longrightarrow>
        run_getVKData e (getVKData (Some u)) w
        = (Gv_done (Success profile),
           w\<lparr>journal := journal w @ [First_TokenStorage_user (user_objectId u),
                                     Http (HttpRequest ''GET'' ''https://api.vk.com/method/users.get''
              [(''User-Agent'', ''Parse.com Cloud Code'')] [(''access_token'', accessToken l)])]\<rparr>))"
proof (intro conjI impI)
  show "run_getVKData e (getVKData None) w = (Gv_done (Error (JStr ''Must be logged in.'')), w)"
    by (simp add: run_getVKData_def getVKData_def)
next
  assume "\<forall>r \<in> set (tokenStorage w). user r \<noteq> user_objectId u"
  then have "find (\<lambda>r. user r = user_objectId u) (tokenStorage w) = None"
    by (simp add: find_None_iff)
  then show "run_getVKData e (getVKData (Some u)) w
        = (Gv_done (Error (JStr ''No VK data found.'')),
           w\<lparr>journal := journal w @ [First_TokenStorage_user (user_objectId u)]\<rparr>)"
    by (simp add: run_getVKData_def getVKData_def first_by_user_def)
next
  assume a: "tokenStorage w = older @ l # newer
        \<and> (\<forall>r \<in> set older. user r \<noteq> user_objectId u)
        \<and> user l = user_objectId u
        \<and> provider e (Suc (length (journal w))) (HttpRequest ''GET'' ''https://api.vk.com/method/users.get''
              [(''User-Agent'', ''Parse.com Cloud Code'')] [(''access_token'', accessToken l)])
           = Inr userDataResponse
        \<and> response0 userDataResponse = Inr profile"
  then have "find (\<lambda>r. user r = user_objectId u) (tokenStorage w) = Some l"
    by (simp add: find_first_match)
  with a show "run_getVKData e (getVKData (Some u)) w
        = (Gv_done (Success profile),
           w\<lparr>journal := journal w @ [First_TokenStorage_user (user_objectId u),
                                     Http (HttpRequest ''GET'' ''https://api.vk.com/method/users.get''
              [(''User-Agent'', ''Parse.com Cloud Code'')] [(''access_token'', accessToken l)])]\<rparr>)"
    by (simp add: run_getVKData_def getVKData_def first_by_user_def httpRequest_def
          getVKUserDetails_def vkUserEndpoint_def)
qed

theorem getVKData_contract_witness:
  "run_getVKData scenario_env (getVKData (Some caller)) scenario_world
   = (Gv_done (Error (JStr ''No VK data found.'')),
      scenario_world\<lparr>journal := [First_TokenStorage_user 0]\<rparr>)
   \<and> run_getVKData scenario_env (getVKData (Some caller)) linked_world
   = (Gv_done (Success (JObj [(''uid'', JNum 7), (''first_name'', JStr ''Ana''),
                              (''last_name'', JStr ''Li'')])),
      linked_world\<lparr>journal := [First_TokenStorage_user 0,
         Http (HttpRequest ''GET'' ''https://api.vk.com/method/users.get''
                 [(''User-Agent'', ''Parse.com Cloud Code'')] [(''access_token'', JStr ''t1'')])]\<rparr>)"
  using getVKData_contract [of scenario_env scenario_world caller]
    getVKData_contract [of scenario_env linked_world caller "[]"
      "\<lparr>vkId = JNum 7, vkFirstName = JStr ''Ana'', vkLastName = JStr ''Li'',
        accessToken = JStr ''t1'', user = 0, ts_objectId = 1\<rparr>"
      "[\<lparr>vkId = JNum 7, vkFirstName = JStr ''Ana'', vkLastName = JStr ''Li'',
         accessToken = JStr ''t2'', user = 0, ts_objectId = 2\<rparr>]"
      "\<lparr>status = 200, data = JObj [(''response'',
          JArr [JObj [(''uid'', JNum 7), (''first_name'', JStr ''Ana''),
                      (''last_name'', JStr ''Li'')]])]\<rparr>"
      "JObj [(''uid'', JNum 7), (''first_name'', JStr ''Ana''), (''last_name'', JStr ''Li'')]"]
  by (simp add: scenario_world_def linked_world_def caller_def scenario_env_def
        scenario_provider_def response0_def js_get_def)


section \<open>Reading the profile out of the provider's answer\<close>

text \<open>
  \<^verbatim>\<open>userDataResponse.data.response[0]\<close> throws exactly when the body is undefined or
  null, or its member \<^verbatim>\<open>response\<close> is.
\<close>

lemma response0_throws_iff:
  "(\<exists>x. response0 r = Inl x)
   \<longleftrightarrow> data r \<in> {JUndefined, JNull} \<or> js_field (data r) ''response'' \<in> {JUndefined, JNull}"
  by (cases "js_field (data r) ''response''") (auto simp: response0_def js_get_def)

text \<open>
  C10, as the claim states it, fails: the body \<^verbatim>\<open>{response: 5}\<close> has no
  \<^verbatim>\<open>response\<close> array, reading its element 0 gives undefined without throwing, and the
  callback answers with the error of the step, \<^verbatim>\<open>"Unable to parse VK data"\<close>.
\<close>

theorem response_not_array_counterexample:
  "run_callback (scenario_env\<lparr>provider := number_provider\<rparr>) (oauthCallback scenario_query)
     scenario_world
   = (Cb_done (Render_error (JSON_stringify (JStr ''Unable to parse VK data''))),
      scenario_world\<lparr>tokenRequests := {},
        journal := [Get_TokenRequest (JStr ''S1''), Destroy_TokenRequest ''S1'',
                    Http (getVKAccessToken (JStr ''c1'')), Http (getVKUserDetails (JStr ''t1''))]\<rparr>)"
  by (simp add: run_callback_unfold run_callback_done oauthCallback_def scenario_query_def
        scenario_world_def scenario_env_def number_provider_def store_defs on_error_def
        getVKAccessToken_def getVKUserDetails_def response0_def js_get_def Let_def)

text \<open>
  C10, amended. When the provider answers the profile request with a body that has no
  member \<^verbatim>\<open>response\<close>, or a null one (a body that is undefined, null or not an object
  has none), reading element 0 throws a TypeError: in the callback before the check of
  \<^verbatim>\<open>first_name\<close>, \<^verbatim>\<open>last_name\<close> and \<^verbatim>\<open>uid\<close>, so that the error of the step is not
  produced, and in \<^verbatim>\<open>getVKData\<close> before \<^verbatim>\<open>response.success\<close>.
\<close>

theorem profile_without_response_throws:
  assumes "provider e (length (journal w)) (getVKUserDetails token) = Inr userDataResponse"
    and "data userDataResponse \<in> {JUndefined, JNull}
       \<or> js_field (data userDataResponse) ''response'' \<in> {JUndefined, JNull}"
  shows "callback_step e (Cb_getVKUserDetails token) w
         = (Cb_done (Uncaught TypeError),
            w\<lparr>journal := journal w @ [Http (getVKUserDetails token)]\<rparr>)
       \<and> getVKData_step e (Gv_getVKUserDetails token) w
         = (Gv_done (Cloud_uncaught TypeError),
            w\<lparr>journal := journal w @ [Http (getVKUserDetails token)]\<rparr>)"
proof -
  from assms(2) obtain x where "response0 userDataResponse = Inl x"
    using response0_throws_iff by blast
  moreover have "x = TypeError" by (cases x) simp
  ultimately show ?thesis
    using assms(1) by (simp add: httpRequest_def)
qed

theorem profile_without_response_throws_witness:
  "js_field (JObj [(''error'', JStr ''denied'')]) ''response'' = JUndefined
   \<and> callback_step (scenario_env\<lparr>provider := denying_provider\<rparr>)
        (Cb_getVKUserDetails (JStr ''t1'')) scenario_world
      = (Cb_done (Uncaught TypeError),
         scenario_world\<lparr>journal := [Http (getVKUserDetails (JStr ''t1''))]\<rparr>)
   \<and> getVKData_step (scenario_env\<lparr>provider := denying_provider\<rparr>)
        (Gv_getVKUserDetails (JStr ''t1'')) scenario_world
      = (Gv_done (Cloud_uncaught TypeError),
         scenario_world\<lparr>journal := [Http (getVKUserDetails (JStr ''t1''))]\<rparr>)"
  using profile_without_response_throws [of "scenario_env\<lparr>provider := denying_provider\<rparr>"
      scenario_world "JStr ''t1''" "\<lparr>status = 200, data = JObj [(''error'', JStr ''denied'')]\<rparr>"]
  by (simp add: scenario_env_def denying_provider_def scenario_world_def)

section \<open>Concurrent first logins\<close>

text \<open>What any step of any call does to the store: users are only added, and the user
  of the oldest row of an identifier, once there is one, stays.\<close>

lemma canonical_save: "canonical v (save td d w) = canonical v w"
  by (cases "find (\<lambda>r. vkId r = v) (tokenStorage w)")
     (simp_all add: canonical_def find_vkId_save)

lemma upsert_step_users: "\<exists>us. users (snd (upsert_step e x w)) = users w @ us"
  by (cases x)
     (auto simp: first_by_vkId_def newVKUser_def fetch_def signUp_def save_new_def save_def Let_def
        split: option.splits sum.splits)

lemma upsert_step_canonical:
  "canonical v w = Some n \<Longrightarrow> canonical v (snd (upsert_step e x w)) = Some n"
proof (cases x)
  case (Up_save tokenData dirty u)
  then show "canonical v w = Some n \<Longrightarrow> ?thesis" by (simp add: canonical_save)
next
  case (Up_create token vkData ts)
  then show "canonical v w = Some n \<Longrightarrow> ?thesis"
    by (auto simp: canonical_def save_new_def Let_def find_append)
qed (auto simp: canonical_def first_by_vkId_def newVKUser_def fetch_def signUp_def Let_def
        split: option.splits sum.splits)

lemma call_ok_other_step:
  assumes "call_ok v w u"
  shows "call_ok v (snd (upsert_step e x w)) u"
proof -
  obtain us where us: "users (snd (upsert_step e x w)) = users w @ us"
    using upsert_step_users by blast
  show ?thesis
    using assms us upsert_step_canonical [of v w _ e x]
    by (cases u) (auto simp: find_append)
qed


lemma oldest_has_user_step:
  assumes "oldest_has_user v w" and "call_ok v w u"
  shows "oldest_has_user v (snd (upsert_step e u w))"
proof (cases u)
  case (Up_create token vkData ts)
  with assms show ?thesis
    by (auto simp: oldest_has_user_def save_new_def Let_def find_append split: option.splits)
next
  case (Up_save tokenData dirty x)
  with assms show ?thesis
    by (auto simp: oldest_has_user_def find_vkId_save users_save split: option.splits)
qed (use assms in \<open>auto simp: oldest_has_user_def first_by_vkId_def newVKUser_def fetch_def
        signUp_def Let_def split: option.splits sum.splits\<close>)

lemma canonical_user_exists:
  assumes "oldest_has_user v w" and "canonical v w = Some n"
  shows "\<exists>u. find (\<lambda>x. user_objectId x = n) (users w) = Some u \<and> user_objectId u = n"
proof -
  from assms(2) obtain l where "find (\<lambda>r. vkId r = v) (tokenStorage w) = Some l" "user l = n"
    by (auto simp: canonical_def)
  then have "\<exists>u \<in> set (users w). user_objectId u = n"
    using assms(1) by (simp add: oldest_has_user_def)
  then show ?thesis
    using find_user_Some find_user_objectId by blast
qed

lemma call_ok_own_step:
  assumes "oldest_has_user v w" and "call_ok v w u"
  shows "call_ok v (snd (upsert_step e u w)) (fst (upsert_step e u w))"
proof (cases u)
  case (Up_first token vkData q)
  with assms(2) show ?thesis
    by (auto simp: first_by_vkId_def newVKUser_def canonical_def Let_def split: option.splits)
next
  case (Up_fetch token tokenData)
  with assms(2) have "canonical v w = Some (user tokenData)" by simp
  from canonical_user_exists [OF assms(1) this] this Up_fetch show ?thesis
    by (auto simp: fetch_def canonical_def)
next
  case (Up_save tokenData dirty x)
  with assms(2) show ?thesis
    by (simp add: canonical_save users_save)
next
  case (Up_signUp token vkData un pw)
  with assms(2) show ?thesis
    by (simp add: signUp_def Let_def)
next
  case (Up_create token vkData ts)
  with assms(2) show ?thesis
    by (simp add: save_new_def Let_def upsertVKUser_def)
qed (use assms(2) in simp_all)

text \<open>The invariant of a pool of calls for the identifier \<open>v\<close>.\<close>
lemma interleave_calls_ok:
  assumes "oldest_has_user v w" and "\<forall>u \<in> set us. call_ok v w u"
    and "interleave (upsert_step e) sched us w = (us', w')"
  shows "oldest_has_user v w' \<and> (\<forall>u \<in> set us'. call_ok v w' u) \<and> length us' = length us"
  using assms
proof (induction sched arbitrary: us w)
  case Nil
  then show ?case by simp
next
  case (Cons i sched)
  show ?case
  proof (cases "i < length us")
    case True
    obtain u1 w1 where step: "upsert_step e (us ! i) w = (u1, w1)" by force
    have mem: "us ! i \<in> set us" using True by simp
    have 1: "oldest_has_user v w1"
      using oldest_has_user_step [OF Cons.prems(1), of "us ! i" e] Cons.prems(2) mem step by simp
    have "call_ok v w1 u1"
      using call_ok_own_step [OF Cons.prems(1), of "us ! i" e] Cons.prems(2) mem step by simp
    moreover have "\<forall>u \<in> set us. call_ok v w1 u"
      using call_ok_other_step [of v w _ e "us ! i"] Cons.prems(2) step by auto
    ultimately have 2: "\<forall>u \<in> set (us[i := u1]). call_ok v w1 u"
      using set_update_subset_insert [of us i u1] by auto
    have 3: "interleave (upsert_step e) sched (us[i := u1]) w1 = (us', w')"
      using Cons.prems(3) True step by simp
    from Cons.IH [OF 1 2 3] show ?thesis by simp
  next
    case False
    with Cons show ?thesis by simp
  qed
qed


text \<open>A step of a call uses up its own fuel and none of another call's.\<close>

lemma upsert_fuel_other_step:
  "upsert_fuel u (snd (upsert_step e x w)) \<le> upsert_fuel u w"
proof (cases u)
  case (Up_first token vkData q)
  show ?thesis
  proof (cases "find (\<lambda>r. vkId r = q) (tokenStorage w)")
    case None
    then show ?thesis by (simp add: Up_first)
  next
    case (Some l)
    then have "canonical q w = Some (user l)" by (simp add: canonical_def)
    from upsert_step_canonical [OF this, of e x] Some show ?thesis
      by (auto simp: Up_first canonical_def)
  qed
qed simp_all

lemma upsert_fuel_own_step:
  "upsert_fuel (fst (upsert_step e u w)) (snd (upsert_step e u w)) \<le> upsert_fuel u w - 1"
proof (cases "upsert_pending u")
  case True
  from upsert_step_fuel [OF this, of e w] show ?thesis by simp
next
  case False
  then show ?thesis by (cases u) simp_all
qed

lemma interleave_fuel:
  assumes "interleave (upsert_step e) sched us w = (us', w')" and "i < length us"
  shows "upsert_fuel (us' ! i) w' \<le> upsert_fuel (us ! i) w - count_list sched i"
  using assms
proof (induction sched arbitrary: us w)
  case Nil
  then show ?case by simp
next
  case (Cons j sched)
  show ?case
  proof (cases "j < length us")
    case True
    obtain u1 w1 where step: "upsert_step e (us ! j) w = (u1, w1)" by force
    have run: "interleave (upsert_step e) sched (us[j := u1]) w1 = (us', w')"
      using Cons.prems(1) True step by simp
    have len: "i < length (us[j := u1])" using Cons.prems(2) by simp
    note IH = Cons.IH [OF run len]
    show ?thesis
    proof (cases "j = i")
      case True
      have "upsert_fuel u1 w1 \<le> upsert_fuel (us ! i) w - 1"
        using upsert_fuel_own_step [of e "us ! i" w] step True by simp
      with IH True Cons.prems(2) show ?thesis by simp
    next
      case False
      have "upsert_fuel (us ! i) w1 \<le> upsert_fuel (us ! i) w"
        using upsert_fuel_other_step [of "us ! i" e "us ! j" w] step by simp
      with IH False show ?thesis by simp
    qed
  next
    case False
    with Cons.prems(2) have "j \<noteq> i" by auto
    with Cons False show ?thesis by simp
  qed
qed

lemma call_ok_fuel: "call_ok v w u \<Longrightarrow> upsert_fuel u w \<le> 6"
  by (cases u) simp_all

lemma pending_fuel: "upsert_pending u \<Longrightarrow> 0 < upsert_fuel u w"
  by (cases u) simp_all

text \<open>
  C6. Any number of calls of \<^verbatim>\<open>upsertVKUser\<close> for profile objects with the same
  identifier \<open>v\<close>, with any access tokens, served in any order, started in a store
  in which no row has the identifier, so that several calls may create a user and a row
  (or in a store in which the oldest row of the identifier points to an existing user).
  At every moment:
  \<^item> no call is rejected and none throws;
  \<^item> a call that has resolved returned the user that the oldest row of \<open>v\<close> points to:
    the same row and the same user for all calls, so a user and a row created later by
    another call are returned to nobody;
  \<^item> a call whose requests were served six times has resolved.
\<close>

theorem concurrent_upserts_converge:
  assumes "\<forall>(token, vkData) \<in> set calls. js_get vkData ''id'' = Inr v"
    and "oldest_has_user v w"
    and "interleave (upsert_step e) sched
           (map (\<lambda>(token, vkData). upsertVKUser token vkData) calls) w = (us, w')"
  shows "length us = length calls
       \<and> (\<forall>i < length calls.
            (upsert_pending (us ! i) \<or> (\<exists>u. us ! i = Up_resolved u))
            \<and> (\<forall>u. us ! i = Up_resolved u \<longrightarrow>
                 (\<exists>l. find (\<lambda>r. vkId r = v) (tokenStorage w') = Some l
                    \<and> user l = user_objectId u
                    \<and> find (\<lambda>x. user_objectId x = user l) (users w') = Some u))
            \<and> (6 \<le> count_list sched i \<longrightarrow> (\<exists>u. us ! i = Up_resolved u)))"
proof -
  let ?us0 = "map (\<lambda>(token, vkData). upsertVKUser token vkData) calls"
  have init: "\<forall>u \<in> set ?us0. call_ok v w u"
    using assms(1) by (auto simp: upsertVKUser_def)
  from interleave_calls_ok [OF assms(2) init assms(3)]
  have ok: "\<forall>u \<in> set us. call_ok v w' u" and len: "length us = length calls"
    by simp_all
  have "(upsert_pending (us ! i) \<or> (\<exists>u. us ! i = Up_resolved u))
      \<and> (\<forall>u. us ! i = Up_resolved u \<longrightarrow>
           (\<exists>l. find (\<lambda>r. vkId r = v) (tokenStorage w') = Some l
              \<and> user l = user_objectId u
              \<and> find (\<lambda>x. user_objectId x = user l) (users w') = Some u))
      \<and> (6 \<le> count_list sched i \<longrightarrow> (\<exists>u. us ! i = Up_resolved u))"
    if i: "i < length calls" for i
  proof -
    have oki: "call_ok v w' (us ! i)" using ok i len by simp
    have settled: "upsert_pending (us ! i) \<or> (\<exists>u. us ! i = Up_resolved u)"
      using oki by (cases "us ! i") simp_all
    have bound: "\<forall>u. us ! i = Up_resolved u \<longrightarrow>
           (\<exists>l. find (\<lambda>r. vkId r = v) (tokenStorage w') = Some l
              \<and> user l = user_objectId u
              \<and> find (\<lambda>x. user_objectId x = user l) (users w') = Some u)"
      using oki by (auto simp: canonical_def)
    have "call_ok v w (?us0 ! i)" using init i by simp
    then have "upsert_fuel (?us0 ! i) w \<le> 6" by (rule call_ok_fuel)
    moreover have "upsert_fuel (us ! i) w' \<le> upsert_fuel (?us0 ! i) w - count_list sched i"
      using interleave_fuel [OF assms(3)] i by simp
    ultimately have "6 \<le> count_list sched i \<Longrightarrow> upsert_fuel (us ! i) w' = 0" by simp
    then have "6 \<le> count_list sched i \<Longrightarrow> \<not> upsert_pending (us ! i)"
      using pending_fuel [of "us ! i" w'] by auto
    with settled bound show ?thesis by blast
  qed
  with len show ?thesis by blast
qed


theorem concurrent_upserts_converge_witness:
  "\<exists>u l. fst (interleave (upsert_step scenario_env) race_schedule
                 (map (\<lambda>(token, vkData). upsertVKUser token vkData) race_calls) scenario_world) ! 0
            = Up_resolved u
        \<and> fst (interleave (upsert_step scenario_env) race_schedule
                 (map (\<lambda>(token, vkData). upsertVKUser token vkData) race_calls) scenario_world) ! 1
            = Up_resolved u
        \<and> find (\<lambda>r. vkId r = JNum 7)
             (tokenStorage (snd (interleave (upsert_step scenario_env) race_schedule
                 (map (\<lambda>(token, vkData). upsertVKUser token vkData) race_calls) scenario_world)))
            = Some l
        \<and> user l = user_objectId u"
proof -
  define us where "us = fst (interleave (upsert_step scenario_env) race_schedule
                 (map (\<lambda>(token, vkData). upsertVKUser token vkData) race_calls) scenario_world)"
  define w' where "w' = snd (interleave (upsert_step scenario_env) race_schedule
                 (map (\<lambda>(token, vkData). upsertVKUser token vkData) race_calls) scenario_world)"
  have h1: "\<forall>(token, vkData) \<in> set race_calls. js_get vkData ''id'' = Inr (JNum 7)"
    by (simp add: race_calls_def js_get_def)
  have h2: "oldest_has_user (JNum 7) scenario_world"
    by (simp add: oldest_has_user_def scenario_world_def)
  have h3: "interleave (upsert_step scenario_env) race_schedule
              (map (\<lambda>(token, vkData). upsertVKUser token vkData) race_calls) scenario_world = (us, w')"
    by (simp add: us_def w'_def)
  have c: "count_list race_schedule 0 = 6" "count_list race_schedule 1 = 6" "length race_calls = 2"
    by (simp_all add: race_schedule_def race_calls_def)
  from concurrent_upserts_converge [OF h1 h2 h3] c
  have 0: "\<exists>u. us ! 0 = Up_resolved u" and 1: "\<exists>u. us ! 1 = Up_resolved u"
    and b: "\<And>i u. i < 2 \<Longrightarrow> us ! i = Up_resolved u \<Longrightarrow>
      \<exists>l. find (\<lambda>r. vkId r = JNum 7) (tokenStorage w') = Some l \<and> user l = user_objectId u
          \<and> find (\<lambda>x. user_objectId x = user l) (users w') = Some u"
    by auto
  from 0 obtain u where u: "us ! 0 = Up_resolved u" by blast
  from 1 obtain u' where u': "us ! 1 = Up_resolved u'" by blast
  from b [of 0 u] u obtain l where l: "find (\<lambda>r. vkId r = JNum 7) (tokenStorage w') = Some l"
      "user l = user_objectId u" "find (\<lambda>x. user_objectId x = user l) (users w') = Some u"
    by auto
  from b [of 1 u'] u' l have "u' = u" by auto
  with u u' l show ?thesis
    unfolding us_def w'_def by blast
qed



section \<open>The state is used once\<close>

lemma request_ok_consumed:
  "request_ok w (q, c) \<Longrightarrow> consumed c \<Longrightarrow>
   \<exists>s. js_field q ''state'' = JStr s \<and> s \<noteq> [] \<and> s \<notin> tokenRequests w"
  by (cases "(w, (q, c))" rule: request_ok.cases) auto

lemma upsert_step_tokenRequests: "tokenRequests (snd (upsert_step e u w)) = tokenRequests w"
  by (cases u)
     (auto simp: first_by_vkId_def newVKUser_def fetch_def signUp_def save_new_def save_def Let_def
        split: option.splits sum.splits)

lemma callback_step_tokenRequests:
  "tokenRequests (snd (callback_step e c w)) \<subseteq> tokenRequests w"
proof (cases c)
  case (Cb_upsertVKUser u)
  then show ?thesis
    using upsert_step_tokenRequests [of e u w] by (simp add: split_beta)
qed (auto simp: query_get_def destroy_def httpRequest_def Let_def
        split: jsval.splits sum.splits if_splits)

lemma request_ok_other_step:
  assumes "request_ok w rc"
  shows "request_ok (snd (callback_step e c w)) rc"
  using assms callback_step_tokenRequests [of e c w]
  by (cases "(w, rc)" rule: request_ok.cases) auto


lemma request_ok_after_upsert:
  "\<exists>s. js_field q ''state'' = JStr s \<and> s \<noteq> [] \<and> s \<notin> tokenRequests w \<Longrightarrow>
   request_ok w (q, after_upsert u)"
  by (cases u) (auto simp: on_error_def)

lemma request_ok_journal: "request_ok (w\<lparr>journal := js\<rparr>) rc = request_ok w rc"
  by (cases "(w, rc)" rule: request_ok.cases) simp_all

lemma request_ok_own_step:
  assumes "request_ok w (q, c)"
  shows "request_ok (snd (callback_step e c w)) (q, fst (callback_step e c w))"
proof (cases c)
  case (Cb_get q')
  with assms show ?thesis
    by (auto simp: query_get_def Let_def on_error_def split: jsval.splits)
next
  case (Cb_destroy q' s)
  with assms show ?thesis
    by (auto simp: destroy_def Let_def on_error_def)
next
  case (Cb_getVKAccessToken q')
  with assms show ?thesis
    by (auto simp: httpRequest_def Let_def on_error_def split: sum.splits)
next
  case (Cb_getVKUserDetails token)
  with assms have "\<exists>s. js_field q ''state'' = JStr s \<and> s \<noteq> [] \<and> s \<notin> tokenRequests w"
    by simp
  from request_ok_after_upsert [OF this] this Cb_getVKUserDetails show ?thesis
    by (auto simp: httpRequest_def on_error_def request_ok_journal split: sum.splits)
next
  case (Cb_upsertVKUser u)
  with assms have "\<exists>s. js_field q ''state'' = JStr s \<and> s \<noteq> []
      \<and> s \<notin> tokenRequests (snd (upsert_step e u w))"
    by (simp add: upsert_step_tokenRequests)
  from request_ok_after_upsert [OF this] Cb_upsertVKUser show ?thesis
    by (simp add: split_beta)
next
  case (Cb_done r)
  with assms show ?thesis by simp
qed

lemma newly_consumed:
  assumes "\<not> consumed c" and "consumed (fst (callback_step e c w))"
  shows "\<exists>q s. c = Cb_destroy q s \<and> s \<in> tokenRequests w"
proof (cases c)
  case (Cb_get q')
  with assms(2) show ?thesis
    by (auto simp: query_get_def Let_def on_error_def split: jsval.splits if_splits)
next
  case (Cb_destroy q' s)
  with assms(2) show ?thesis
    by (auto simp: destroy_def Let_def on_error_def split: if_splits)
next
  case (Cb_done r)
  with assms show ?thesis by simp
qed (use assms(1) in simp_all)

lemma consumers_differ_step:
  assumes ok: "\<forall>rc \<in> set cs. request_ok w rc" and K: "consumers_differ cs" and k: "k < length cs"
  shows "consumers_differ (cs[k := (fst (cs ! k), fst (callback_step e (snd (cs ! k)) w))])"
  unfolding consumers_differ_def
proof (intro allI impI)
  let ?c' = "fst (callback_step e (snd (cs ! k)) w)"
  let ?cs' = "cs[k := (fst (cs ! k), ?c')]"
  fix i j
  assume i: "i < length ?cs'" and j: "j < length ?cs'"
    and ij: "i \<noteq> j \<and> consumed (snd (?cs' ! i)) \<and> consumed (snd (?cs' ! j))"
  have fst_same: "fst (?cs' ! n) = fst (cs ! n)" if "n < length cs" for n
    using that by (cases "n = k") simp_all
  have old: "consumed (snd (cs ! n))" if "n < length cs" "n \<noteq> k" "consumed (snd (?cs' ! n))" for n
    using that by simp
  have fresh: "js_field (fst (cs ! k)) ''state'' \<noteq> js_field (fst (cs ! n)) ''state''"
    if n: "n < length cs" "n \<noteq> k" "consumed (snd (cs ! n))" and c': "consumed ?c'" for n
  proof (cases "consumed (snd (cs ! k))")
    case True
    with K k n show ?thesis by (auto simp: consumers_differ_def)
  next
    case False
    from newly_consumed [OF False c'] obtain q s
      where c: "snd (cs ! k) = Cb_destroy q s" and live: "s \<in> tokenRequests w"
      by blast
    have "request_ok w (fst (cs ! k), snd (cs ! k))" using ok k by simp
    with c have sk: "js_field (fst (cs ! k)) ''state'' = JStr s" by simp
    have "request_ok w (fst (cs ! n), snd (cs ! n))" using ok n(1) by simp
    from request_ok_consumed [OF this n(3)] obtain s'
      where "js_field (fst (cs ! n)) ''state'' = JStr s'" "s' \<notin> tokenRequests w"
      by blast
    with sk live show ?thesis by auto
  qed
  show "js_field (fst (?cs' ! i)) ''state'' \<noteq> js_field (fst (?cs' ! j)) ''state''"
  proof (cases "i = k")
    case True
    with ij have jk: "j \<noteq> k" by simp
    from True ij i have "consumed ?c'" by simp
    moreover from jk ij j have "consumed (snd (cs ! j))" by simp
    ultimately show ?thesis
      using fresh [of j] i j True jk by (simp add: fst_same)
  next
    case ik: False
    show ?thesis
    proof (cases "j = k")
      case True
      from True ij j have "consumed ?c'" by simp
      moreover from ik ij i have "consumed (snd (cs ! i))" by simp
      ultimately have "js_field (fst (cs ! k)) ''state'' \<noteq> js_field (fst (cs ! i)) ''state''"
        using fresh [of i] i ik by simp
      then show ?thesis
        using i j True by (simp add: fst_same)
    next
      case False
      with ik ij i j K show ?thesis by (simp add: consumers_differ_def)
    qed
  qed
qed


lemma interleave_requests_ok:
  assumes "\<forall>rc \<in> set cs. request_ok w rc" and "consumers_differ cs"
    and "interleave (request_step e) sched cs w = (cs', w')"
  shows "(\<forall>rc \<in> set cs'. request_ok w' rc) \<and> consumers_differ cs' \<and> map fst cs' = map fst cs"
  using assms
proof (induction sched arbitrary: cs w)
  case Nil
  then show ?case by simp
next
  case (Cons k sched)
  show ?case
  proof (cases "k < length cs")
    case True
    let ?c1 = "fst (callback_step e (snd (cs ! k)) w)"
    let ?w1 = "snd (callback_step e (snd (cs ! k)) w)"
    let ?cs1 = "cs[k := (fst (cs ! k), ?c1)]"
    have step: "request_step e (cs ! k) w = ((fst (cs ! k), ?c1), ?w1)"
      by (simp add: request_step_def split_beta)
    have "request_ok w (fst (cs ! k), snd (cs ! k))"
      using Cons.prems(1) True by simp
    then have "request_ok ?w1 (fst (cs ! k), ?c1)"
      by (rule request_ok_own_step)
    moreover have "\<forall>rc \<in> set cs. request_ok ?w1 rc"
      using Cons.prems(1) request_ok_other_step by blast
    ultimately have 1: "\<forall>rc \<in> set ?cs1. request_ok ?w1 rc"
      using set_update_subset_insert [of cs k "(fst (cs ! k), ?c1)"] by auto
    have 2: "consumers_differ ?cs1"
      using consumers_differ_step [OF Cons.prems(1,2) True] .
    have 3: "interleave (request_step e) sched ?cs1 ?w1 = (cs', w')"
      using Cons.prems(3) True step by simp
    have "map fst ?cs1 = map fst cs"
      using True by (simp add: map_update list_update_same_conv)
    with Cons.IH [OF 1 2 3] show ?thesis by simp
  next
    case False
    with Cons show ?thesis by simp
  qed
qed

lemma replay_fails_at_lookup:
  assumes "js_field q ''state'' = JStr s" and "s \<noteq> []" and "truthy (js_field q ''code'')"
    and "s \<notin> tokenRequests w"
  shows "run_callback e (oauthCallback q) w
       = (Cb_done (Render_error (JSON_stringify object_not_found)),
          w\<lparr>journal := journal w @ [Get_TokenRequest (JStr s)]\<rparr>)"
proof -
  have "run_callback e (oauthCallback q) w = run_callback e (Cb_get q) w"
    using assms by (simp add: callback_starts)
  also have "\<dots> = run_callback e (Cb_done (on_error object_not_found))
                     (w\<lparr>journal := journal w @ [Get_TokenRequest (JStr s)]\<rparr>)"
    using assms by (intro run_callback_step) (simp_all add: query_get_def)
  finally show ?thesis
    by (simp add: run_callback_done on_error_def object_not_found_def)
qed

lemma provider_request_needs_consumed:
  "\<not> consumed c \<Longrightarrow>
   filter is_http (drop (length (journal w)) (journal (snd (callback_step e c w)))) = []"
proof (cases c)
  case (Cb_done r)
  then show ?thesis by simp
qed (auto simp: query_get_def destroy_def Let_def split: jsval.splits)

text \<open>A step only adds to the journal, and after a request to destroy a TokenRequest,
  served with or without success, the TokenRequest is not in the store.\<close>

lemma upsert_step_journal:
  "\<exists>evs. journal (snd (upsert_step e u w)) = journal w @ evs
         \<and> (\<forall>s. Destroy_TokenRequest s \<notin> set evs)"
  by (cases u)
     (auto simp: first_by_vkId_def newVKUser_def fetch_def signUp_def save_new_def save_def Let_def
        split: option.splits sum.splits)

lemma callback_step_journal:
  "\<exists>evs. journal (snd (callback_step e c w)) = journal w @ evs
         \<and> (\<forall>s. Destroy_TokenRequest s \<in> set evs \<longrightarrow> s \<notin> tokenRequests (snd (callback_step e c w)))"
proof (cases c)
  case (Cb_upsertVKUser u)
  then show ?thesis
    using upsert_step_journal [of e u w] by (auto simp: split_beta)
qed (auto simp: query_get_def destroy_def httpRequest_def Let_def
        split: jsval.splits sum.splits)

lemma interleave_destroyed:
  assumes "interleave (request_step e) sched cs w = (cs', w')"
  shows "\<exists>evs. journal w' = journal w @ evs
           \<and> (\<forall>s. Destroy_TokenRequest s \<in> set evs \<longrightarrow> s \<notin> tokenRequests w')
           \<and> tokenRequests w' \<subseteq> tokenRequests w"
  using assms
proof (induction sched arbitrary: cs w)
  case Nil
  then show ?case by simp
next
  case (Cons k sched)
  show ?case
  proof (cases "k < length cs")
    case True
    let ?c1 = "fst (callback_step e (snd (cs ! k)) w)"
    let ?w1 = "snd (callback_step e (snd (cs ! k)) w)"
    have step: "request_step e (cs ! k) w = ((fst (cs ! k), ?c1), ?w1)"
      by (simp add: request_step_def split_beta)
    have run: "interleave (request_step e) sched (cs[k := (fst (cs ! k), ?c1)]) ?w1 = (cs', w')"
      using Cons.prems True step by simp
    from Cons.IH [OF run] obtain evs2 where 2: "journal w' = journal ?w1 @ evs2"
      "\<forall>s. Destroy_TokenRequest s \<in> set evs2 \<longrightarrow> s \<notin> tokenRequests w'"
      "tokenRequests w' \<subseteq> tokenRequests ?w1"
      by blast
    from callback_step_journal [of e "snd (cs ! k)" w] obtain evs1
      where 1: "journal ?w1 = journal w @ evs1"
        "\<forall>s. Destroy_TokenRequest s \<in> set evs1 \<longrightarrow> s \<notin> tokenRequests ?w1"
      by blast
    have "journal w' = journal w @ (evs1 @ evs2)" using 1(1) 2(1) by simp
    moreover have "\<forall>s. Destroy_TokenRequest s \<in> set (evs1 @ evs2) \<longrightarrow> s \<notin> tokenRequests w'"
      using 1(2) 2(2,3) by auto
    moreover have "tokenRequests w' \<subseteq> tokenRequests w"
      using 2(3) callback_step_tokenRequests [of e "snd (cs ! k)" w] by blast
    ultimately show ?thesis by blast
  next
    case False
    with Cons show ?thesis by simp
  qed
qed

text \<open>
  C2. Any number of callbacks, served in any order, from any store. At every moment:
  \<^item> a callback that has consumed its state \<open>s\<close> (it destroyed the TokenRequest and is
    about to call the provider, or is further on) finds the TokenRequest gone, and no
    other callback of the pool with the same state has consumed it: at most one
    callback per state gets past the destroy, so at most one succeeds;
  \<^item> once a request to destroy the TokenRequest \<open>s\<close> has been served, \<open>s\<close> is not in
    the store, whatever became of the callback that sent it;
  \<^item> when \<open>s\<close> is not in the store, a callback with the state \<open>s\<close> that is run from
    that moment fails at the lookup, with the error of \<^verbatim>\<open>query.get\<close> and the lookup as
    its only request;
  \<^item> a callback that has not consumed its state sends nothing to the provider: the
    destroy comes before every request to the provider;
  \<^item> a lookup that succeeds leaves the callback with the destroy as its next request.
\<close>

theorem state_consumed_once:
  assumes "interleave (request_step e) sched (map (\<lambda>q. (q, oauthCallback q)) qs) w = (cs, w')"
  shows "(\<forall>i < length qs. consumed (snd (cs ! i)) \<longrightarrow>
            (\<exists>s. js_field (qs ! i) ''state'' = JStr s \<and> s \<noteq> [] \<and> s \<notin> tokenRequests w'
               \<and> (\<forall>j < length qs. j \<noteq> i \<and> js_field (qs ! j) ''state'' = JStr s
                     \<longrightarrow> \<not> consumed (snd (cs ! j)))))
       \<and> (\<forall>s. Destroy_TokenRequest s \<in> set (drop (length (journal w)) (journal w'))
                \<longrightarrow> s \<notin> tokenRequests w')
       \<and> (\<forall>s q e'. s \<notin> tokenRequests w' \<and> js_field q ''state'' = JStr s \<and> s \<noteq> []
                \<and> truthy (js_field q ''code'') \<longrightarrow>
                run_callback e' (oauthCallback q) w'
                = (Cb_done (Render_error (JSON_stringify object_not_found)),
                   w'\<lparr>journal := journal w' @ [Get_TokenRequest (JStr s)]\<rparr>))
       \<and> (\<forall>c w0. \<not> consumed c \<longrightarrow>
                filter is_http (drop (length (journal w0)) (journal (snd (callback_step e c w0)))) = [])
       \<and> (\<forall>q s w0 w1. js_field q ''state'' = JStr s \<and> s \<in> tokenRequests w0 \<longrightarrow>
                callback_step e (Cb_get q) w0
                = (Cb_destroy q s, w0\<lparr>journal := journal w0 @ [Get_TokenRequest (JStr s)]\<rparr>)
                \<and> journal (snd (callback_step e (Cb_destroy q s) w1))
                  = journal w1 @ [Destroy_TokenRequest s])"
proof (intro conjI allI impI)
  let ?cs0 = "map (\<lambda>q. (q, oauthCallback q)) qs"
  fix i
  assume i: "i < length qs" and ci: "consumed (snd (cs ! i))"
  have "\<forall>rc \<in> set ?cs0. request_ok w rc"
    by (auto simp: oauthCallback_def)
  moreover have "consumers_differ ?cs0"
    by (auto simp: consumers_differ_def oauthCallback_def)
  ultimately have inv: "\<forall>rc \<in> set cs. request_ok w' rc" "consumers_differ cs"
    "map fst cs = map fst ?cs0"
    using interleave_requests_ok [OF _ _ assms(1)] by blast+
  have len: "length cs = length qs"
    using inv(3) by (metis length_map)
  have fsts: "fst (cs ! j) = qs ! j" if "j < length qs" for j
  proof -
    have "fst (cs ! j) = map fst cs ! j" using that len by simp
    also have "\<dots> = qs ! j" using that inv(3) by (simp add: comp_def)
    finally show ?thesis .
  qed
  have "request_ok w' (fst (cs ! i), snd (cs ! i))"
    using inv(1) i len by simp
  from request_ok_consumed [OF this ci] obtain s
    where s: "js_field (qs ! i) ''state'' = JStr s" "s \<noteq> []" "s \<notin> tokenRequests w'"
    using fsts [OF i] by auto
  have others: "\<not> consumed (snd (cs ! j))"
    if j: "j < length qs" "j \<noteq> i" "js_field (qs ! j) ''state'' = JStr s" for j
  proof
    assume "consumed (snd (cs ! j))"
    with inv(2) j(1,2) i ci len
    have "js_field (fst (cs ! i)) ''state'' \<noteq> js_field (fst (cs ! j)) ''state''"
      unfolding consumers_differ_def by metis
    with s(1) j(1,3) i show False by (simp add: fsts)
  qed
  show "\<exists>s. js_field (qs ! i) ''state'' = JStr s \<and> s \<noteq> [] \<and> s \<notin> tokenRequests w'
               \<and> (\<forall>j < length qs. j \<noteq> i \<and> js_field (qs ! j) ''state'' = JStr s
                     \<longrightarrow> \<not> consumed (snd (cs ! j)))"
    using s others by blast
next
  fix s
  assume "Destroy_TokenRequest s \<in> set (drop (length (journal w)) (journal w'))"
  with interleave_destroyed [OF assms(1)] show "s \<notin> tokenRequests w'"
    by auto
next
  fix s q e'
  assume "s \<notin> tokenRequests w' \<and> js_field q ''state'' = JStr s \<and> s \<noteq> []
                \<and> truthy (js_field q ''code'')"
  then show "run_callback e' (oauthCallback q) w'
                = (Cb_done (Render_error (JSON_stringify object_not_found)),
                   w'\<lparr>journal := journal w' @ [Get_TokenRequest (JStr s)]\<rparr>)"
    by (simp add: replay_fails_at_lookup)
next
  fix c w0
  assume "\<not> consumed c"
  then show "filter is_http (drop (length (journal w0)) (journal (snd (callback_step e c w0)))) = []"
    by (rule provider_request_needs_consumed)
next
  fix q s and w0 w1 :: world
  assume "js_field q ''state'' = JStr s \<and> s \<in> tokenRequests w0"
  then show "callback_step e (Cb_get q) w0
           = (Cb_destroy q s, w0\<lparr>journal := journal w0 @ [Get_TokenRequest (JStr s)]\<rparr>)"
    by (simp add: query_get_def)
next
  fix q s and w0 w1 :: world
  show "journal (snd (callback_step e (Cb_destroy q s) w1)) = journal w1 @ [Destroy_TokenRequest s]"
    by (simp add: destroy_def Let_def)
qed

theorem state_consumed_once_witness:
  "''S1'' \<notin> tokenRequests (snd (interleave (request_step scenario_env) [0, 0, 1]
                         (map (\<lambda>q. (q, oauthCallback q)) [scenario_query, scenario_query])
                         scenario_world))
   \<and> run_callback scenario_env (oauthCallback scenario_query)
        (snd (interleave (request_step scenario_env) [0, 0, 1]
                (map (\<lambda>q. (q, oauthCallback q)) [scenario_query, scenario_query]) scenario_world))
      = (Cb_done (Render_error (JSON_stringify object_not_found)),
         (snd (interleave (request_step scenario_env) [0, 0, 1]
                (map (\<lambda>q. (q, oauthCallback q)) [scenario_query, scenario_query]) scenario_world))
         \<lparr>journal := [Get_TokenRequest (JStr ''S1''), Destroy_TokenRequest ''S1'',
                      Get_TokenRequest (JStr ''S1''), Get_TokenRequest (JStr ''S1'')]\<rparr>)"
proof -
  define cs where "cs = fst (interleave (request_step scenario_env) [0, 0, 1]
                         (map (\<lambda>q. (q, oauthCallback q)) [scenario_query, scenario_query])
                         scenario_world)"
  define w' where "w' = snd (interleave (request_step scenario_env) [0, 0, 1]
                         (map (\<lambda>q. (q, oauthCallback q)) [scenario_query, scenario_query])
                         scenario_world)"
  have h1: "interleave (request_step scenario_env) [0, 0, 1]
              (map (\<lambda>q. (q, oauthCallback q)) [scenario_query, scenario_query]) scenario_world
            = (cs, w')"
    by (simp add: cs_def w'_def)
  have h3: "consumed (snd (cs ! 0))"
    by (simp add: cs_def request_step_def oauthCallback_def scenario_query_def scenario_world_def
          query_get_def destroy_def Let_def)
  have j: "journal w' = [Get_TokenRequest (JStr ''S1''), Destroy_TokenRequest ''S1'',
                      Get_TokenRequest (JStr ''S1'')]"
    by (simp add: w'_def request_step_def oauthCallback_def scenario_query_def scenario_world_def
          query_get_def destroy_def Let_def)
  from state_consumed_once [OF h1] h3
  have "\<exists>s. js_field ([scenario_query, scenario_query] ! 0) ''state'' = JStr s
          \<and> s \<notin> tokenRequests w'"
    by fastforce
  then have gone: "''S1'' \<notin> tokenRequests w'"
    by (auto simp: scenario_query_def)
  from state_consumed_once [OF h1] gone
  have "run_callback scenario_env (oauthCallback scenario_query) w'
      = (Cb_done (Render_error (JSON_stringify object_not_found)),
         w'\<lparr>journal := journal w' @ [Get_TokenRequest (JStr ''S1'')]\<rparr>)"
    by (simp add: scenario_query_def)
  with gone j show ?thesis
    unfolding cs_def w'_def by simp
qed

text \<open>
  Two callbacks with the same state whose lookups are both served before the first
  destroy: both lookups succeed, the first destroy removes the TokenRequest, and the
  second callback fails at its own destroy, before any request to the provider.
\<close>

lemma second_lookup_before_first_destroy:
  "interleave (request_step scenario_env) [0, 1, 0, 1]
     (map (\<lambda>q. (q, oauthCallback q)) [scenario_query, scenario_query]) scenario_world
   = ([(scenario_query, Cb_getVKAccessToken scenario_query),
       (scenario_query, Cb_done (Render_error (JSON_stringify object_not_found)))],
      scenario_world\<lparr>tokenRequests := {},
        journal := [Get_TokenRequest (JStr ''S1''), Get_TokenRequest (JStr ''S1''),
                    Destroy_TokenRequest ''S1'', Destroy_TokenRequest ''S1'']\<rparr>)"
  by (simp add: request_step_def oauthCallback_def scenario_query_def scenario_world_def
        query_get_def destroy_def on_error_def object_not_found_def Let_def)

end
